theory Spec2Isabelle
  imports Main "HOL-Library.AList" "HOL-Library.Multiset"
begin

section \<open>Python values used by the agents\<close>

text \<open>
  Exceptions are values: every function of the source that can raise returns
  \<open>error + 'a\<close>, with \<open>Inl\<close> carrying the exception.
\<close>

datatype error =
    LLMError          \<comment> \<open>\<open>llm.invoke\<close> failed (connection refused, timeout, ...)\<close>
  | TransportError    \<comment> \<open>\<open>newsapi.get_everything\<close> failed\<close>
  | JSONDecodeError   \<comment> \<open>\<open>json.JSONDecodeError\<close>\<close>
  | TypeError
  | AttributeError
  | RecursionError    \<comment> \<open>raised by \<open>json.loads\<close> on deeply nested input\<close>
  | ValueError
  | OtherError

text \<open>
  A value of Python type \<open>Optional[str]\<close> is a \<open>string option\<close>. Python's truth test
  (\<open>if value\<close>, \<open>not value\<close>, \<open>x or y\<close>) rejects both \<open>None\<close> and the empty string.
\<close>

definition truthy :: "string option \<Rightarrow> bool" where
  "truthy v = (case v of None \<Rightarrow> False | Some s \<Rightarrow> s \<noteq> [])"

definition py_or :: "string option \<Rightarrow> string option \<Rightarrow> string option" where
  "py_or x y = (if truthy x then x else y)"

text \<open>
  \<open>str.strip()\<close>, \<open>str.upper()\<close> and \<open>str.startswith\<close> on text whose code points lie
  below 256 (one \<open>char\<close> per code point). The white space of \<open>str.isspace\<close> in that
  range is TAB..CR, FS..US, SPACE, NEL and NBSP. \<open>upper\<close> maps a code point to a string,
  since the sharp s (223) becomes \<open>SS\<close>; the two letters whose capital lies beyond 255
  (181 and 255) are left in place, which never produces one of the letters Y, E, S.
\<close>

definition isspace :: "char \<Rightarrow> bool" where
  "isspace c = (of_char c \<in> {9, 10, 11, 12, 13, 28, 29, 30, 31, 32, 133, 160 :: nat})"

definition strip :: "string \<Rightarrow> string" where
  "strip s = rev (dropWhile isspace (rev (dropWhile isspace s)))"

definition upper_char :: "char \<Rightarrow> string" where
  "upper_char c =
     (let n = (of_char c :: nat) in
      if 97 \<le> n \<and> n \<le> 122 then [char_of (n - 32)]
      else if n = 223 then ''SS''
      else if 224 \<le> n \<and> n \<le> 254 \<and> n \<noteq> 247 then [char_of (n - 32)]
      else [c])"

definition upper :: "string \<Rightarrow> string" where
  "upper s = concat (map upper_char s)"

definition lower_char :: "char \<Rightarrow> char" where
  "lower_char c =
     (let n = (of_char c :: nat) in
      if 65 \<le> n \<and> n \<le> 90 then char_of (n + 32)
      else if 192 \<le> n \<and> n \<le> 222 \<and> n \<noteq> 215 then char_of (n + 32)
      else c)"

definition lower :: "string \<Rightarrow> string" where
  "lower s = map lower_char s"

definition startswith :: "string \<Rightarrow> string \<Rightarrow> bool" where
  "startswith s p = (take (length p) s = p)"

section \<open>Article records\<close>

text \<open>
  A raw record, as the search API or the feed reader delivers it, is a dictionary whose
  values are strings or \<open>None\<close>. \<open>a.get(k)\<close> is \<open>get a k\<close>, \<open>a.get(k, d)\<close> is
  \<open>get_default a k d\<close>: the default is used only when the key is missing, not when it is
  present with the value \<open>None\<close>.
\<close>

type_synonym raw = "string \<rightharpoonup> string option"

definition get :: "raw \<Rightarrow> string \<Rightarrow> string option" where
  "get a k = (case a k of None \<Rightarrow> None | Some v \<Rightarrow> v)"

definition get_default :: "raw \<Rightarrow> string \<Rightarrow> string \<Rightarrow> string option" where
  "get_default a k d = (case a k of None \<Rightarrow> Some d | Some v \<Rightarrow> v)"

text \<open>The dictionary that \<open>normalize_article\<close> builds has five fixed keys.\<close>

record article =
  title :: string
  summary :: "string option"
  url :: "string option"
  published :: "string option"
  source :: string

text \<open>
  \<open>normalize_article\<close> of finance\_agent.py and sports\_agent.py.
  \<open>a.get("title", "").strip()\<close> raises AttributeError when the key is present with the
  value \<open>None\<close>.
\<close>

definition normalize_article :: "raw \<Rightarrow> string \<Rightarrow> error + article" where
  "normalize_article a src =
     (case get_default a ''title'' '''' of
        None \<Rightarrow> Inl AttributeError
      | Some t \<Rightarrow> Inr \<lparr> title = strip t,
                        summary = py_or (get a ''summary'') (get_default a ''description'' ''''),
                        url = py_or (get a ''url'') (get a ''link''),
                        published = py_or (get a ''publishedAt'') (get a ''published''),
                        source = src \<rparr>)"

section \<open>Deduplication\<close>

subsection \<open>utils/dedup.py\<close>

text \<open>
  \<open>deduplicate_articles(articles, key)\<close>: the loop carries the set \<open>seen\<close> and the list
  \<open>unique\<close>. The parameter \<open>key\<close> is the accessor \<open>article.get(key)\<close>.
\<close>

fun dedup_loop :: "('a \<Rightarrow> string option) \<Rightarrow> string set \<Rightarrow> 'a list \<Rightarrow> 'a list \<Rightarrow> 'a list" where
  "dedup_loop key seen unique [] = unique"
| "dedup_loop key seen unique (article # rest) =
     (case key article of
        None \<Rightarrow> dedup_loop key seen unique rest
      | Some v \<Rightarrow>
          if v = [] then dedup_loop key seen unique rest
          else if v \<notin> seen then dedup_loop key (insert v seen) (unique @ [article]) rest
          else dedup_loop key seen unique rest)"

definition deduplicate_articles :: "'a list \<Rightarrow> ('a \<Rightarrow> string option) \<Rightarrow> 'a list" where
  "deduplicate_articles articles key = dedup_loop key {} [] articles"

subsection \<open>agents/tech\_agent.py\<close>

text \<open>\<open>deduplicate(articles)\<close> works on raw dictionaries and reads \<open>a.get("url")\<close>.\<close>

fun deduplicate_loop :: "string set \<Rightarrow> raw list \<Rightarrow> raw list \<Rightarrow> raw list" where
  "deduplicate_loop seen unique [] = unique"
| "deduplicate_loop seen unique (a # rest) =
     (let url = get a ''url'' in
      if truthy url \<and> the url \<notin> seen
      then deduplicate_loop (insert (the url) seen) (unique @ [a]) rest
      else deduplicate_loop seen unique rest)"

definition deduplicate :: "raw list \<Rightarrow> raw list" where
  "deduplicate articles = deduplicate_loop {} [] articles"

subsection \<open>The merge step of finance\_agent.py and sports\_agent.py\<close>

text \<open>
  \<open>combined = {}; for a in newsapi_articles + rss_articles: if a["url"]: combined[a["url"]] = a\<close>
  followed by \<open>list(combined.values())\<close>. A Python dictionary keeps its keys in the order
  of their first insertion and an assignment to a key that is present replaces the value
  in place: this is \<open>AList.update\<close> on an association list.
\<close>

definition combined_put :: "(string \<times> article) list \<Rightarrow> article \<Rightarrow> (string \<times> article) list" where
  "combined_put combined a =
     (case url a of
        None \<Rightarrow> combined
      | Some u \<Rightarrow> if u = [] then combined else AList.update u a combined)"

definition combine_dedupe :: "article list \<Rightarrow> article list \<Rightarrow> article list" where
  "combine_dedupe newsapi_articles rss_articles =
     map snd (foldl combined_put [] (newsapi_articles @ rss_articles))"


section \<open>Calls to the language model\<close>

text \<open>
  A prompt is a template of the source filled with its arguments; the fixed text of the
  template and the module constants it mentions are left out, the arguments that vary are
  kept. The language model is a parameter: a prompt is answered by a text or the call
  raises.

  A computation that may call the model takes the list of prompts sent so far and returns
  the extended list with its outcome, so that which calls a run makes can be read off.
\<close>

datatype prompt =
    QUERY_PROMPT
  | CLASSIFY_PROMPT "string option" "string option"
  | SUMMARY_PROMPT string

type_synonym 'a io = "prompt list \<Rightarrow> prompt list \<times> (error + 'a)"

definition io_return :: "'a \<Rightarrow> 'a io" where
  "io_return x = (\<lambda>t. (t, Inr x))"

definition io_lift :: "error + 'a \<Rightarrow> 'a io" where
  "io_lift r = (\<lambda>t. (t, r))"

definition io_bind :: "'a io \<Rightarrow> ('a \<Rightarrow> 'b io) \<Rightarrow> 'b io" where
  "io_bind m f = (\<lambda>t. case m t of (t', Inl e) \<Rightarrow> (t', Inl e) | (t', Inr x) \<Rightarrow> f x t')"

text \<open>\<open>try: m  except Exception as e: h e\<close>\<close>

definition io_try :: "'a io \<Rightarrow> (error \<Rightarrow> 'a io) \<Rightarrow> 'a io" where
  "io_try m h = (\<lambda>t. case m t of (t', Inl e) \<Rightarrow> h e t' | (t', Inr x) \<Rightarrow> (t', Inr x))"

text \<open>\<open>llm.invoke(prompt).content\<close>\<close>

definition invoke :: "(prompt \<Rightarrow> error + string) \<Rightarrow> prompt \<Rightarrow> string io" where
  "invoke llm p = (\<lambda>t. (t @ [p], llm p))"

section \<open>Query generation\<close>

text \<open>
  The value \<open>json.loads\<close> returns. The parser itself belongs to the standard library and
  is a parameter \<open>string \<Rightarrow> error + json\<close> of the functions that call it.
\<close>

datatype json =
    JNull
  | JBool bool
  | JNum int
  | JStr string
  | JArr "json list"
  | JObj "(string \<times> json) list"

fun json_truthy :: "json \<Rightarrow> bool" where
  "json_truthy JNull = False"
| "json_truthy (JBool b) = b"
| "json_truthy (JNum n) = (n \<noteq> 0)"
| "json_truthy (JStr s) = (s \<noteq> [])"
| "json_truthy (JArr xs) = (xs \<noteq> [])"
| "json_truthy (JObj kvs) = (kvs \<noteq> [])"

fun isinstance_list :: "json \<Rightarrow> bool" where
  "isinstance_list (JArr xs) = True"
| "isinstance_list _ = False"

text \<open>\<open>for q in queries\<close>: what iterating over a parsed value yields.\<close>

fun py_iter :: "json \<Rightarrow> error + json list" where
  "py_iter (JArr xs) = Inr xs"
| "py_iter (JStr s) = Inr (map (\<lambda>c. JStr [c]) s)"
| "py_iter (JObj kvs) = Inr (map (\<lambda>kv. JStr (fst kv)) kvs)"
| "py_iter _ = Inl TypeError"

text \<open>
  \<open>re.search(r"\[.*\]", text, re.DOTALL)\<close>: the start positions are tried from the left;
  at a position holding an opening bracket the greedy \<open>.*\<close> runs to the end of the text
  and backtracks to the last closing bracket. \<open>upto_last c s\<close> is the prefix of \<open>s\<close>
  that ends with the last \<open>c\<close>.
\<close>

definition upto_last :: "char \<Rightarrow> string \<Rightarrow> string" where
  "upto_last c s = rev (dropWhile (\<lambda>x. x \<noteq> c) (rev s))"

fun search_array :: "string \<Rightarrow> string option" where
  "search_array [] = None"
| "search_array (c # cs) =
     (if c = CHR ''['' \<and> CHR '']'' \<in> set cs then Some (c # upto_last CHR '']'' cs)
      else search_array cs)"

definition TEAM :: string where "TEAM = ''Australia''"
definition SPORT :: string where "SPORT = ''Cricket''"
definition STOCK :: string where "STOCK = ''Infosys''"
definition TECH :: string where "TECH = ''Artificial Intelligence''"

definition fallback_sports :: json where
  "fallback_sports = JArr [JStr (TEAM @ '' '' @ SPORT @ '' news'')]"

definition fallback_finance :: json where
  "fallback_finance = JArr [JStr (STOCK @ '' stock news'')]"

definition fallback_tech :: json where
  "fallback_tech = JArr [JStr (TECH @ '' news'')]"

text \<open>
  sports\_agent.py, \<open>generate_queries\<close>: the call to the model and the search stand before
  the \<open>try\<close>, which covers \<open>json.loads\<close> and the test \<open>if queries\<close> only.
\<close>

definition generate_queries_sports ::
  "(prompt \<Rightarrow> error + string) \<Rightarrow> (string \<Rightarrow> error + json) \<Rightarrow> json io" where
  "generate_queries_sports llm loads =
     io_bind (invoke llm QUERY_PROMPT) (\<lambda>content.
       case search_array content of
         None \<Rightarrow> io_return fallback_sports
       | Some m \<Rightarrow>
           (case loads m of
              Inl e \<Rightarrow> io_return fallback_sports
            | Inr queries \<Rightarrow>
                if json_truthy queries then io_return queries else io_return fallback_sports))"

text \<open>
  tech\_agent.py, \<open>generate_queries\<close>: the whole body stands inside
  \<open>try ... except Exception\<close>.
\<close>

definition generate_queries_tech ::
  "(prompt \<Rightarrow> error + string) \<Rightarrow> (string \<Rightarrow> error + json) \<Rightarrow> json io" where
  "generate_queries_tech llm loads =
     io_try
       (io_bind (invoke llm QUERY_PROMPT) (\<lambda>content.
          case search_array content of
            None \<Rightarrow> io_return fallback_tech
          | Some m \<Rightarrow>
              io_bind (io_lift (loads m)) (\<lambda>queries.
                if isinstance_list queries \<and> json_truthy queries then io_return queries
                else io_return fallback_tech)))
       (\<lambda>e. io_return fallback_tech)"

text \<open>
  finance\_agent.py has no function of its own for this step: lines 229 to 235 of
  \<open>run_finance_agent\<close>, with no \<open>try\<close> around them.
\<close>

definition generate_queries_finance ::
  "(prompt \<Rightarrow> error + string) \<Rightarrow> (string \<Rightarrow> error + json) \<Rightarrow> json io" where
  "generate_queries_finance llm loads =
     io_bind (invoke llm QUERY_PROMPT) (\<lambda>llm_raw.
       case search_array llm_raw of
         Some m \<Rightarrow> io_lift (loads m)
       | None \<Rightarrow> io_return fallback_finance)"

section \<open>Fetching\<close>

definition MAX_NEWSAPI :: nat where "MAX_NEWSAPI = 10"
definition MAX_RSS :: nat where "MAX_RSS = 10"
definition FINAL_ARTICLES :: nat where "FINAL_ARTICLES = 5"

text \<open>
  \<open>for a in records: articles.append(normalize_article(a, source))\<close>. When a
  normalisation raises, the records appended so far stay in \<open>articles\<close>; the exception
  is returned beside them.
\<close>

fun normalize_into :: "string \<Rightarrow> article list \<Rightarrow> raw list \<Rightarrow> article list \<times> error option" where
  "normalize_into src articles [] = (articles, None)"
| "normalize_into src articles (a # rest) =
     (case normalize_article a src of
        Inl e \<Rightarrow> (articles, Some e)
      | Inr n \<Rightarrow> normalize_into src (articles @ [n]) rest)"

text \<open>
  \<open>fetch_newsapi_articles\<close> of finance\_agent.py and sports\_agent.py. The parameter
  \<open>get_everything q\<close> is \<open>newsapi.get_everything(q=q, ...).get("articles", [])\<close>: the
  records of the response, or the exception of the call. The \<open>try\<close> inside the loop
  covers the call and the normalisation of its records; \<open>except\<close> logs and goes on with
  the next query.
\<close>

fun newsapi_loop :: "(json \<Rightarrow> error + raw list) \<Rightarrow> article list \<Rightarrow> json list \<Rightarrow> article list" where
  "newsapi_loop get_everything articles [] = articles"
| "newsapi_loop get_everything articles (q # rest) =
     (case get_everything q of
        Inl e \<Rightarrow> newsapi_loop get_everything articles rest
      | Inr res \<Rightarrow> newsapi_loop get_everything (fst (normalize_into ''newsapi'' articles res)) rest)"

definition fetch_newsapi_articles :: "(json \<Rightarrow> error + raw list) \<Rightarrow> json list \<Rightarrow> article list" where
  "fetch_newsapi_articles get_everything queries =
     take MAX_NEWSAPI (newsapi_loop get_everything [] queries)"

text \<open>
  The dictionary the feed loops hand to \<open>normalize_article\<close>:
  \<open>{"title": entry.get("title"), "summary": entry.get("summary"),
    "link": entry.get("link"), "published": entry.get("published")}\<close>.
\<close>

definition entry_dict :: "raw \<Rightarrow> raw" where
  "entry_dict entry =
     map_of [(''title'', get entry ''title''), (''summary'', get entry ''summary''),
             (''link'', get entry ''link''), (''published'', get entry ''published'')]"

text \<open>
  sports\_agent.py, \<open>fetch_rss_articles\<close>: one loop over the feeds, the entries of each cut
  to \<open>MAX_RSS\<close>. The parameter \<open>entries u\<close> is \<open>feedparser.parse(u).entries\<close>. There is
  no \<open>try\<close>: an exception of \<open>normalize_article\<close> leaves the function.
\<close>

fun rss_loop :: "(string \<Rightarrow> raw list) \<Rightarrow> article list \<Rightarrow> string list \<Rightarrow> error + article list" where
  "rss_loop entries articles [] = Inr articles"
| "rss_loop entries articles (feed_url # rest) =
     (case normalize_into ''rss'' articles (map entry_dict (take MAX_RSS (entries feed_url))) of
        (articles', Some e) \<Rightarrow> Inl e
      | (articles', None) \<Rightarrow> rss_loop entries articles' rest)"

definition fetch_rss_feeds :: "(string \<Rightarrow> raw list) \<Rightarrow> string list \<Rightarrow> error + article list" where
  "fetch_rss_feeds entries feeds = rss_loop entries [] feeds"

definition CRICKET_RSS :: "string list" where
  "CRICKET_RSS = [''https://www.espncricinfo.com/rss/content/story/feeds/0.xml'']"

definition FOOTBALL_RSS :: "string list" where
  "FOOTBALL_RSS = [''https://www.espn.com/espn/rss/soccer/news'', ''https://www.goal.com/feeds/news'']"

definition get_rss_feeds :: "string list" where
  "get_rss_feeds =
     (if lower SPORT = ''cricket'' then CRICKET_RSS
      else if lower SPORT = ''football'' then FOOTBALL_RSS
      else [])"

definition fetch_rss_articles_sports :: "(string \<Rightarrow> raw list) \<Rightarrow> error + article list" where
  "fetch_rss_articles_sports entries = fetch_rss_feeds entries get_rss_feeds"

definition FINANCE_RSS_FEED :: string where
  "FINANCE_RSS_FEED = ''https://www.moneycontrol.com/rss/latestnews.xml''"

definition fetch_rss_articles_finance :: "(string \<Rightarrow> raw list) \<Rightarrow> error + article list" where
  "fetch_rss_articles_finance entries =
     (case normalize_into ''rss'' [] (map entry_dict (take MAX_RSS (entries FINANCE_RSS_FEED))) of
        (articles, Some e) \<Rightarrow> Inl e
      | (articles, None) \<Rightarrow> Inr articles)"





section \<open>Ranking by recency\<close>

text \<open>
  A \<open>datetime\<close> is naive (no time zone; counted in microseconds from \<open>datetime.min\<close>) or
  aware (an instant on the UTC time line). \<open>dateutil\<close> returns an aware value when the
  text names a zone or an offset, as in \<open>2024-01-02T10:00:00Z\<close>, and a naive one
  otherwise. \<open>datetime.min\<close> is naive. Ordering a naive against an aware value raises
  TypeError.
\<close>

datatype datetime = Naive nat | Aware int

definition datetime_min :: datetime where
  "datetime_min = Naive 0"

fun datetime_lt :: "datetime \<Rightarrow> datetime \<Rightarrow> error + bool" where
  "datetime_lt (Naive a) (Naive b) = Inr (a < b)"
| "datetime_lt (Aware a) (Aware b) = Inr (a < b)"
| "datetime_lt (Naive a) (Aware b) = Inl TypeError"
| "datetime_lt (Aware a) (Naive b) = Inl TypeError"

text \<open>
  \<open>parse_date_safe\<close>: the parameter \<open>date_parse\<close> is \<open>dateutil.parser.parse\<close> on a
  string; on \<open>None\<close> the library raises TypeError, which the \<open>except\<close> catches too.
\<close>

definition parse_date_safe :: "(string \<Rightarrow> error + datetime) \<Rightarrow> string option \<Rightarrow> datetime" where
  "parse_date_safe date_parse date_str =
     (case date_str of
        None \<Rightarrow> datetime_min
      | Some s \<Rightarrow> (case date_parse s of Inl e \<Rightarrow> datetime_min | Inr d \<Rightarrow> d))"

text \<open>
  \<open>articles.sort(key=lambda x: parse_date_safe(x.get("published")), reverse=True)\<close>.
  The keys are computed first, then the list is sorted on them by comparisons \<open><\<close>, stably,
  largest first. The sort is modelled by a stable insertion sort whose comparison can raise;
  an exception of a comparison leaves the sort.
\<close>

fun insert_desc :: "datetime \<times> 'a \<Rightarrow> (datetime \<times> 'a) list \<Rightarrow> error + (datetime \<times> 'a) list" where
  "insert_desc x [] = Inr [x]"
| "insert_desc x (y # ys) =
     (case datetime_lt (fst x) (fst y) of
        Inl e \<Rightarrow> Inl e
      | Inr True \<Rightarrow> (case insert_desc x ys of Inl e \<Rightarrow> Inl e | Inr zs \<Rightarrow> Inr (y # zs))
      | Inr False \<Rightarrow> Inr (x # y # ys))"

fun sort_desc :: "(datetime \<times> 'a) list \<Rightarrow> error + (datetime \<times> 'a) list" where
  "sort_desc [] = Inr []"
| "sort_desc (x # xs) =
     (case sort_desc xs of Inl e \<Rightarrow> Inl e | Inr ys \<Rightarrow> insert_desc x ys)"

definition sort_by_recency :: "(string \<Rightarrow> error + datetime) \<Rightarrow> article list \<Rightarrow> error + article list" where
  "sort_by_recency date_parse articles =
     (case sort_desc (map (\<lambda>x. (parse_date_safe date_parse (published x), x)) articles) of
        Inl e \<Rightarrow> Inl e
      | Inr keyed \<Rightarrow> Inr (map snd keyed))"

section \<open>Relevance classification\<close>

text \<open>
  sports\_agent.py, \<open>classify_article\<close>: no \<open>try\<close>; an exception of the call leaves the
  function.
\<close>

definition classify_article_sports :: "(prompt \<Rightarrow> error + string) \<Rightarrow> article \<Rightarrow> bool io" where
  "classify_article_sports llm article =
     io_bind (invoke llm (CLASSIFY_PROMPT (Some (title article)) (summary article))) (\<lambda>content.
       io_return (startswith (upper (strip content)) ''YES''))"

text \<open>tech\_agent.py, \<open>classify_article\<close>: the body stands inside \<open>try ... except Exception\<close>.\<close>

definition classify_article_tech :: "(prompt \<Rightarrow> error + string) \<Rightarrow> raw \<Rightarrow> bool io" where
  "classify_article_tech llm article =
     io_try
       (io_bind (invoke llm (CLASSIFY_PROMPT (get_default article ''title'' [])
                                             (get_default article ''summary'' []))) (\<lambda>content.
          io_return (startswith (upper (strip content)) ''YES'')))
       (\<lambda>e. io_return False)"

text \<open>
  \<open>futures = {exe.submit(classify_article, a): a for a in articles}\<close>: every article is
  submitted and every task runs; the outcome of a task, a verdict or an exception, is kept
  in its future. The prompts are logged in the order of submission.
\<close>

fun submit_all :: "('a \<Rightarrow> bool io) \<Rightarrow> 'a list \<Rightarrow> prompt list \<Rightarrow> prompt list \<times> ((error + bool) \<times> 'a) list" where
  "submit_all task [] t = (t, [])"
| "submit_all task (a # rest) t =
     (case task a t of
        (t', r) \<Rightarrow> (case submit_all task rest t' of (t'', futures) \<Rightarrow> (t'', (r, a) # futures)))"

text \<open>
  \<open>as_completed(futures)\<close> yields the futures in the order in which they complete. The
  time at which the i-th submitted task completes is the parameter \<open>completion_time i\<close>.
\<close>

definition as_completed :: "(nat \<Rightarrow> nat) \<Rightarrow> 'f list \<Rightarrow> 'f list" where
  "as_completed completion_time futures =
     map snd (sort_key fst (zip (map completion_time [0..<length futures]) futures))"

text \<open>
  \<open>for f in as_completed(futures): if f.result(): relevant.append(futures[f])\<close>;
  \<open>f.result()\<close> raises the exception of the task.
\<close>

fun collect_relevant :: "'a list \<Rightarrow> ((error + bool) \<times> 'a) list \<Rightarrow> error + 'a list" where
  "collect_relevant relevant [] = Inr relevant"
| "collect_relevant relevant ((r, a) # rest) =
     (case r of
        Inl e \<Rightarrow> Inl e
      | Inr verdict \<Rightarrow>
          if verdict then collect_relevant (relevant @ [a]) rest
          else collect_relevant relevant rest)"

definition classify_parallel :: "(nat \<Rightarrow> nat) \<Rightarrow> ('a \<Rightarrow> bool io) \<Rightarrow> 'a list \<Rightarrow> 'a list io" where
  "classify_parallel completion_time task articles =
     (\<lambda>t. case submit_all task articles t of
            (t', futures) \<Rightarrow> (t', collect_relevant [] (as_completed completion_time futures)))"

section \<open>Summarisation\<close>

fun str_nat :: "nat \<Rightarrow> string" where
  "str_nat n =
     (if n < 10 then [char_of (48 + n)]
      else str_nat (n div 10) @ [char_of (48 + n mod 10)])"

declare str_nat.simps [simp del]

definition join :: "string \<Rightarrow> string list \<Rightarrow> string" where
  "join sep xs = (case xs of [] \<Rightarrow> [] | x # rest \<Rightarrow> x @ concat (map (\<lambda>y. sep @ y) rest))"

text \<open>\<open>"\n".join(f"{idx+1}. {a['title']}" for idx, a in enumerate(articles))\<close>\<close>

definition numbered_titles :: "article list \<Rightarrow> string" where
  "numbered_titles articles =
     join [CHR 10] (map (\<lambda>(idx, a). str_nat (idx + 1) @ ''. '' @ title a) (enumerate 0 articles))"

definition summarize_articles_finance :: "(prompt \<Rightarrow> error + string) \<Rightarrow> article list \<Rightarrow> string io" where
  "summarize_articles_finance llm articles =
     io_try
       (io_bind (invoke llm (SUMMARY_PROMPT (numbered_titles articles))) (\<lambda>content.
          io_return (strip content)))
       (\<lambda>e. io_return ''Summary unavailable'')"

definition summarize_articles_sports :: "(prompt \<Rightarrow> error + string) \<Rightarrow> article list \<Rightarrow> string io" where
  "summarize_articles_sports llm articles =
     io_bind (invoke llm (SUMMARY_PROMPT (numbered_titles articles))) (\<lambda>content.
       io_return (strip content))"



section \<open>The three agents\<close>

text \<open>
  Everything outside the repository that a run reads: the language model, the JSON
  parser, the search API, the feed reader, the date parser, the price lookup, and the
  times at which the classification tasks complete.
\<close>

record env =
  llm :: "prompt \<Rightarrow> error + string"
  json_loads :: "string \<Rightarrow> error + json"
  get_everything :: "json \<Rightarrow> error + raw list"
  entries :: "string \<Rightarrow> raw list"
  date_parse :: "string \<Rightarrow> error + datetime"
  completion_time :: "nat \<Rightarrow> nat"
  get_stock_price :: "error + string"

text \<open>
  The result of a run: the empty dictionary \<open>{}\<close>, or a dictionary with the keys
  \<open>title\<close>, \<open>summary\<close>, \<open>articles\<close> and, for finance, \<open>stock_info\<close>. The emoji that
  opens each title in the source is left out.
\<close>

datatype 'a digest =
    EmptyDigest
  | Digest string "string option" string "'a list"

text \<open>
  \<open>run_finance_agent\<close>, lines 229 to 254: from the query prompt to \<open>final_articles\<close>.
\<close>

definition select_finance :: "env \<Rightarrow> article list io" where
  "select_finance env =
     io_bind (generate_queries_finance (llm env) (json_loads env)) (\<lambda>queries.
     io_bind (io_lift (py_iter queries)) (\<lambda>qs.
     let newsapi_articles = fetch_newsapi_articles (get_everything env) qs in
     io_bind (io_lift (fetch_rss_articles_finance (entries env))) (\<lambda>rss_articles.
     let articles = combine_dedupe newsapi_articles rss_articles in
     io_bind (io_lift (sort_by_recency (date_parse env) articles)) (\<lambda>articles.
     io_return (take FINAL_ARTICLES articles)))))"

text \<open>\<open>run_finance_agent\<close>, lines 257 to 265.\<close>

definition run_finance_agent :: "env \<Rightarrow> article digest io" where
  "run_finance_agent env =
     io_bind (select_finance env) (\<lambda>final_articles.
       if final_articles = [] then io_return EmptyDigest
       else
         io_bind (io_lift (get_stock_price env)) (\<lambda>stock_info.
         io_bind (summarize_articles_finance (llm env) final_articles) (\<lambda>summary.
         io_return (Digest ''Finance News'' (Some stock_info) summary final_articles))))"

text \<open>\<open>run_sports_agent\<close>, up to \<open>final_articles = relevant[:FINAL_ARTICLES]\<close>.\<close>

definition select_sports :: "env \<Rightarrow> article list io" where
  "select_sports env =
     io_bind (generate_queries_sports (llm env) (json_loads env)) (\<lambda>queries.
     io_bind (io_lift (py_iter queries)) (\<lambda>qs.
     let newsapi_articles = fetch_newsapi_articles (get_everything env) qs in
     io_bind (io_lift (fetch_rss_articles_sports (entries env))) (\<lambda>rss_articles.
     let articles = combine_dedupe newsapi_articles rss_articles in
     io_bind (io_lift (sort_by_recency (date_parse env) articles)) (\<lambda>articles.
     io_bind (classify_parallel (completion_time env) (classify_article_sports (llm env)) articles)
       (\<lambda>relevant.
     io_return (take FINAL_ARTICLES relevant))))))"

definition run_sports_agent :: "env \<Rightarrow> article digest io" where
  "run_sports_agent env =
     io_bind (select_sports env) (\<lambda>final_articles.
       if final_articles = [] then io_return EmptyDigest
       else
         io_bind (summarize_articles_sports (llm env) final_articles) (\<lambda>summary.
         io_return (Digest ''Sports News'' None summary final_articles)))"


section \<open>utils/json\_utils.py\<close>

text \<open>
  \<open>re.sub(r"^```(?:json)?|```$", "", text, flags=re.MULTILINE)\<close>. The text is scanned
  from the left; \<open>bol\<close> says that the position is the start of a line. At a position that
  starts a line three backticks match the first alternative, with a following \<open>json\<close> when
  it is there; elsewhere three backticks match the second alternative when the line or the
  text ends behind them. A match is deleted and the scan goes on behind it.
\<close>

definition fence :: string where
  "fence = [CHR 0x60, CHR 0x60, CHR 0x60]"

function sub_fences :: "bool \<Rightarrow> string \<Rightarrow> string" where
  "sub_fences bol s =
     (if s = [] then []
      else if take 3 s = fence \<and> bol then
        (if take 4 (drop 3 s) = ''json'' then sub_fences False (drop 7 s)
         else sub_fences False (drop 3 s))
      else if take 3 s = fence \<and> (drop 3 s = [] \<or> hd (drop 3 s) = CHR 10) then
        sub_fences False (drop 3 s)
      else hd s # sub_fences (hd s = CHR 10) (tl s))"
  by pat_completeness auto
termination
  by (relation "measure (\<lambda>(bol, s). length s)") auto

declare sub_fences.simps [simp del]

text \<open>
  \<open>re.search(r"(\{.*\}|\[.*\])", text, re.DOTALL)\<close>: at the first position from the left
  that holds an opening brace with a closing brace behind it, or an opening bracket with a
  closing bracket behind it, the match runs to the last such closing character.
\<close>

fun search_json :: "string \<Rightarrow> string option" where
  "search_json [] = None"
| "search_json (c # cs) =
     (if c = CHR 0x7B \<and> CHR 0x7D \<in> set cs then Some (c # upto_last (CHR 0x7D) cs)
      else if c = CHR ''['' \<and> CHR '']'' \<in> set cs then Some (c # upto_last CHR '']'' cs)
      else search_json cs)"

definition extract_json_block :: "string \<Rightarrow> string option" where
  "extract_json_block text =
     (if text = [] then None
      else search_json (strip (sub_fences True (strip text))))"

text \<open>
  \<open>safe_json_loads\<close>: \<open>except json.JSONDecodeError\<close> catches that exception and no
  other.
\<close>

definition safe_json_loads :: "(string \<Rightarrow> error + json) \<Rightarrow> string \<Rightarrow> error + json option" where
  "safe_json_loads loads text =
     (case extract_json_block text of
        None \<Rightarrow> Inr None
      | Some json_block \<Rightarrow>
          if json_block = [] then Inr None
          else (case loads json_block of
                  Inr v \<Rightarrow> Inr (Some v)
                | Inl e \<Rightarrow> if e = JSONDecodeError then Inr None else Inl e))"

section \<open>Sample environments\<close>

text \<open>
  An environment in which nothing is found: the model answers the query prompt with prose,
  the search API and the feeds deliver no record.
\<close>

definition env_no_news :: env where
  "env_no_news =
     \<lparr> llm = (\<lambda>p. Inr ''no array here''),
       json_loads = (\<lambda>s. Inl JSONDecodeError),
       get_everything = (\<lambda>q. Inr []),
       entries = (\<lambda>u. []),
       date_parse = (\<lambda>s. Inl OtherError),
       completion_time = (\<lambda>i. i),
       get_stock_price = Inr ''n/a'' \<rparr>"


section \<open>Properties of deduplication\<close>

lemma dedup_loop_acc:
  "dedup_loop key seen unique xs = unique @ dedup_loop key seen [] xs"
proof (induction xs arbitrary: seen unique)
  case Nil
  show ?case by simp
next
  case (Cons x xs)
  show ?case
  proof (cases "key x")
    case None
    then show ?thesis using Cons.IH[of seen unique] by simp
  next
    case (Some v)
    then show ?thesis
      using Cons.IH[of seen unique] Cons.IH[of "insert v seen" "unique @ [x]"]
            Cons.IH[of "insert v seen" "[x]"]
      by simp
  qed
qed

lemma dedup_loop_fresh:
  "a \<in> set (dedup_loop key seen [] xs) \<Longrightarrow>
   a \<in> set xs \<and> (\<exists>v. key a = Some v \<and> v \<noteq> [] \<and> v \<notin> seen)"
proof (induction xs arbitrary: seen)
  case Nil
  then show ?case by simp
next
  case (Cons x xs)
  show ?case
  proof (cases "key x")
    case None
    then show ?thesis using Cons by auto
  next
    case (Some v)
    show ?thesis
    proof (cases "v \<noteq> [] \<and> v \<notin> seen")
      case True
      then have "a \<in> set ([x] @ dedup_loop key (insert v seen) [] xs)"
        using Cons.prems Some dedup_loop_acc[of key "insert v seen" "[x]" xs] by simp
      then consider "a = x" | "a \<in> set (dedup_loop key (insert v seen) [] xs)" by auto
      then show ?thesis
      proof cases
        case 1
        then show ?thesis using Some True by simp
      next
        case 2
        then show ?thesis using Cons.IH[of "insert v seen"] by auto
      qed
    next
      case False
      then have "a \<in> set (dedup_loop key seen [] xs)"
        using Cons.prems Some by (auto split: if_splits)
      then show ?thesis using Cons.IH[of seen] by auto
    qed
  qed
qed

lemma dedup_loop_distinct:
  "distinct (map key (dedup_loop key seen [] xs))"
proof (induction xs arbitrary: seen)
  case Nil
  show ?case by simp
next
  case (Cons x xs)
  show ?case
  proof (cases "key x")
    case None
    then show ?thesis using Cons.IH by simp
  next
    case (Some v)
    show ?thesis
    proof (cases "v \<noteq> [] \<and> v \<notin> seen")
      case True
      have eq: "dedup_loop key seen [] (x # xs) = x # dedup_loop key (insert v seen) [] xs"
        using Some True dedup_loop_acc[of key "insert v seen" "[x]" xs] by simp
      have "key x \<notin> key ` set (dedup_loop key (insert v seen) [] xs)"
        using dedup_loop_fresh[of _ key "insert v seen" xs] Some by force
      then show ?thesis using eq Cons.IH[of "insert v seen"] by simp
    next
      case False
      then have "dedup_loop key seen [] (x # xs) = dedup_loop key seen [] xs"
        using Some by auto
      then show ?thesis using Cons.IH by simp
    qed
  qed
qed

lemma dedup_loop_first:
  "a \<in> set (dedup_loop key seen [] xs) \<Longrightarrow> List.find (\<lambda>b. key b = key a) xs = Some a"
proof (induction xs arbitrary: seen)
  case Nil
  then show ?case by simp
next
  case (Cons x xs)
  show ?case
  proof (cases "key x")
    case None
    then have "a \<in> set (dedup_loop key seen [] xs)" using Cons.prems by simp
    moreover from this have "key a \<noteq> None" using dedup_loop_fresh[of a key seen xs] by auto
    ultimately show ?thesis using Cons.IH[of seen] None by auto
  next
    case (Some v)
    show ?thesis
    proof (cases "v \<noteq> [] \<and> v \<notin> seen")
      case True
      have eq: "dedup_loop key seen [] (x # xs) = x # dedup_loop key (insert v seen) [] xs"
        using Some True dedup_loop_acc[of key "insert v seen" "[x]" xs] by simp
      show ?thesis
      proof (cases "a = x")
        case True
        then show ?thesis by simp
      next
        case False
        then have in_rest: "a \<in> set (dedup_loop key (insert v seen) [] xs)"
          using Cons.prems eq by simp
        then have "key a \<noteq> key x" using dedup_loop_fresh[of a key "insert v seen" xs] Some by auto
        then show ?thesis using Cons.IH[OF in_rest] by auto
      qed
    next
      case False
      then have in_rest: "a \<in> set (dedup_loop key seen [] xs)"
        using Cons.prems Some by (auto split: if_splits)
      then have "key a \<noteq> key x"
        using dedup_loop_fresh[of a key seen xs] Some False by auto
      then show ?thesis using Cons.IH[OF in_rest] by auto
    qed
  qed
qed

lemma deduplicate_loop_eq:
  "deduplicate_loop seen unique xs = dedup_loop (\<lambda>a. get a ''url'') seen unique xs"
  by (induction xs arbitrary: seen unique) (auto simp: truthy_def Let_def split: option.splits)

lemma deduplicate_eq: "deduplicate rs = deduplicate_articles rs (\<lambda>a. get a ''url'')"
  by (simp add: deduplicate_def deduplicate_articles_def deduplicate_loop_eq)

lemma deduplicate_articles_props:
  "distinct (map key (deduplicate_articles xs key)) \<and>
   (\<forall>a \<in> set (deduplicate_articles xs key).
      truthy (key a) \<and> List.find (\<lambda>b. key b = key a) xs = Some a)"
  using dedup_loop_distinct[of key "{}" xs] dedup_loop_fresh[of _ key "{}" xs]
        dedup_loop_first[of _ key "{}" xs]
  by (fastforce simp: deduplicate_articles_def truthy_def)

lemma set_update_subset: "set (AList.update k v al) \<subseteq> insert (k, v) (set al)"
  by (induction al) auto

lemma combined_put_inv:
  assumes "distinct (map fst d)" "\<forall>p \<in> set d. url (snd p) = Some (fst p) \<and> fst p \<noteq> []"
  shows "distinct (map fst (combined_put d a)) \<and>
         (\<forall>p \<in> set (combined_put d a). url (snd p) = Some (fst p) \<and> fst p \<noteq> [])"
proof (cases "url a")
  case None
  then show ?thesis using assms by (simp add: combined_put_def)
next
  case (Some u)
  show ?thesis
  proof (cases "u = []")
    case True
    then show ?thesis using assms Some by (simp add: combined_put_def)
  next
    case False
    have "distinct (map fst (AList.update u a d))" using assms(1) by (rule distinct_update)
    moreover have "\<forall>p \<in> set (AList.update u a d). url (snd p) = Some (fst p) \<and> fst p \<noteq> []"
      using set_update_subset[of u a d] assms(2) Some False by auto
    ultimately show ?thesis using Some False by (simp add: combined_put_def)
  qed
qed

lemma foldl_combined_put_inv:
  "distinct (map fst d) \<Longrightarrow> \<forall>p \<in> set d. url (snd p) = Some (fst p) \<and> fst p \<noteq> [] \<Longrightarrow>
   distinct (map fst (foldl combined_put d xs)) \<and>
   (\<forall>p \<in> set (foldl combined_put d xs). url (snd p) = Some (fst p) \<and> fst p \<noteq> [])"
proof (induction xs arbitrary: d)
  case Nil
  then show ?case by simp
next
  case (Cons x xs)
  have "distinct (map fst (combined_put d x))"
       "\<forall>p \<in> set (combined_put d x). url (snd p) = Some (fst p) \<and> fst p \<noteq> []"
    using combined_put_inv[OF Cons.prems] by blast+
  then show ?case using Cons.IH[of "combined_put d x"] by simp
qed

lemma map_of_combined_put:
  "u \<noteq> [] \<Longrightarrow> map_of (combined_put d a) u = (if url a = Some u then Some a else map_of d u)"
  by (auto simp: combined_put_def update_conv' split: option.splits)

lemma find_snoc:
  "List.find P (xs @ [x]) = (case List.find P xs of Some a \<Rightarrow> Some a | None \<Rightarrow> if P x then Some x else None)"
  by (induction xs) auto

lemma map_of_foldl_combined_put:
  "u \<noteq> [] \<Longrightarrow>
   map_of (foldl combined_put d xs) u =
     (case List.find (\<lambda>b. url b = Some u) (rev xs) of Some a \<Rightarrow> Some a | None \<Rightarrow> map_of d u)"
proof (induction xs arbitrary: d)
  case Nil
  show ?case by simp
next
  case (Cons x xs)
  show ?case
    using Cons.IH[OF Cons.prems, of "combined_put d x"] map_of_combined_put[OF Cons.prems, of d x]
    by (simp add: find_snoc split: option.splits)
qed

lemma combine_dedupe_last:
  assumes "a \<in> set (combine_dedupe n r)"
  shows "truthy (url a) \<and> List.find (\<lambda>b. url b = url a) (rev (n @ r)) = Some a"
proof -
  let ?D = "foldl combined_put [] (n @ r)"
  have inv: "distinct (map fst ?D)" "\<forall>p \<in> set ?D. url (snd p) = Some (fst p) \<and> fst p \<noteq> []"
    using foldl_combined_put_inv[of "[]" "n @ r"] by simp_all
  from assms obtain k where k: "(k, a) \<in> set ?D" by (auto simp: combine_dedupe_def)
  then have ua: "url a = Some k" "k \<noteq> []" using inv(2) by auto
  have "map_of ?D k = Some a" using k inv(1) by simp
  then have "List.find (\<lambda>b. url b = Some k) (rev (n @ r)) = Some a"
    using map_of_foldl_combined_put[OF ua(2), of "[]" "n @ r"] by (simp split: option.splits)
  then show ?thesis using ua by (simp add: truthy_def)
qed

lemma combine_dedupe_distinct: "distinct (map url (combine_dedupe n r))"
proof -
  let ?D = "foldl combined_put [] (n @ r)"
  have inv: "distinct (map fst ?D)" "\<forall>p \<in> set ?D. url (snd p) = Some (fst p) \<and> fst p \<noteq> []"
    using foldl_combined_put_inv[of "[]" "n @ r"] by simp_all
  have "map url (combine_dedupe n r) = map Some (map fst ?D)"
    using inv(2) by (simp add: combine_dedupe_def)
  moreover have "distinct (map Some (map fst ?D))"
    unfolding distinct_map[of Some] using inv(1) by (simp add: inj_on_def)
  ultimately show ?thesis by simp
qed

lemma combine_dedupe_has:
  assumes "List.find (\<lambda>b. url b = Some u) (rev (n @ r)) = Some a" "u \<noteq> []"
  shows "a \<in> set (combine_dedupe n r)"
proof -
  have "map_of (foldl combined_put [] (n @ r)) u = Some a"
    using map_of_foldl_combined_put[OF assms(2), of "[]" "n @ r"] assms(1) by simp
  then have "(u, a) \<in> set (foldl combined_put [] (n @ r))" by (rule map_of_SomeD)
  then show ?thesis by (force simp: combine_dedupe_def)
qed

lemma distinct_map_filter_eq:
  "distinct (map f xs) \<Longrightarrow> a \<in> set xs \<Longrightarrow> filter (\<lambda>b. f b = f a) xs = [a]"
proof (induction xs)
  case Nil
  then show ?case by simp
next
  case (Cons x xs)
  show ?case
  proof (cases "a = x")
    case True
    have "filter (\<lambda>b. f b = f x) xs = []" using Cons.prems(1) by (auto simp: filter_empty_conv) (metis imageI)
    then show ?thesis using True by simp
  next
    case False
    then have "a \<in> set xs" using Cons.prems by simp
    then have "f x \<noteq> f a" using Cons.prems(1) by force
    then show ?thesis using Cons \<open>a \<in> set xs\<close> by simp
  qed
qed

lemma find_Some_in: "List.find P xs = Some a \<Longrightarrow> a \<in> set xs \<and> P a"
  by (induction xs) (auto split: if_splits)

lemma find_append_left:
  "x \<in> set xs \<Longrightarrow> P x \<Longrightarrow> List.find P (xs @ ys) = List.find P xs"
  by (induction xs) auto

lemma dedup_loop_keeps:
  "b \<in> set xs \<Longrightarrow> key b = Some v \<Longrightarrow> v \<noteq> [] \<Longrightarrow> v \<notin> seen \<Longrightarrow>
   \<exists>a \<in> set (dedup_loop key seen [] xs). key a = Some v"
proof (induction xs arbitrary: seen)
  case Nil
  then show ?case by simp
next
  case (Cons x xs)
  show ?case
  proof (cases "key x")
    case None
    then have "b \<in> set xs" using Cons.prems by auto
    then show ?thesis using Cons.IH[of seen] Cons.prems None by simp
  next
    case (Some w)
    show ?thesis
    proof (cases "w \<noteq> [] \<and> w \<notin> seen")
      case True
      have eq: "dedup_loop key seen [] (x # xs) = x # dedup_loop key (insert w seen) [] xs"
        using Some True dedup_loop_acc[of key "insert w seen" "[x]" xs] by simp
      show ?thesis
      proof (cases "w = v")
        case True
        then show ?thesis using eq Some by simp
      next
        case False
        then have "b \<in> set xs" "v \<notin> insert w seen" using Cons.prems Some by auto
        then show ?thesis using Cons.IH[of "insert w seen"] Cons.prems eq by simp
      qed
    next
      case False
      then have eq: "dedup_loop key seen [] (x # xs) = dedup_loop key seen [] xs"
        using Some by auto
      have "b \<noteq> x" using False Some Cons.prems by auto
      then have "b \<in> set xs" using Cons.prems by simp
      then show ?thesis using Cons.IH[of seen] Cons.prems eq by simp
    qed
  qed
qed

lemma deduplicate_articles_exactly_first:
  assumes "b \<in> set xs" "truthy (key b)"
  shows "\<exists>a. List.find (\<lambda>c. key c = key b) xs = Some a \<and>
             filter (\<lambda>c. key c = key b) (deduplicate_articles xs key) = [a]"
proof -
  from assms(2) obtain v where v: "key b = Some v" "v \<noteq> []"
    by (auto simp: truthy_def split: option.splits)
  then obtain a where a: "a \<in> set (deduplicate_articles xs key)" "key a = key b"
    using dedup_loop_keeps[OF assms(1), of key v "{}"] by (auto simp: deduplicate_articles_def)
  have "List.find (\<lambda>c. key c = key a) xs = Some a"
    using deduplicate_articles_props[of key xs] a(1) by blast
  moreover have "distinct (map key (deduplicate_articles xs key))"
    using deduplicate_articles_props[of key xs] by simp
  then have "filter (\<lambda>c. key c = key a) (deduplicate_articles xs key) = [a]"
    using a(1) by (rule distinct_map_filter_eq)
  ultimately show ?thesis using a(2) by simp
qed

lemma combine_dedupe_exactly_last:
  assumes "b \<in> set (n @ r)" "truthy (url b)"
  shows "\<exists>a. List.find (\<lambda>c. url c = url b) (rev (n @ r)) = Some a \<and>
             filter (\<lambda>c. url c = url b) (combine_dedupe n r) = [a]"
proof -
  from assms(2) obtain u where u: "url b = Some u" "u \<noteq> []"
    by (auto simp: truthy_def split: option.splits)
  have "List.find (\<lambda>c. url c = url b) (rev (n @ r)) \<noteq> None"
    using assms(1) by (auto simp: find_None_iff)
  then obtain a where a: "List.find (\<lambda>c. url c = url b) (rev (n @ r)) = Some a" by auto
  then have au: "url a = url b"
    using find_Some_in[of "\<lambda>c. url c = url b" "rev (n @ r)" a] by simp
  have "a \<in> set (combine_dedupe n r)"
    using combine_dedupe_has[of u n r a] a u by simp
  then have "filter (\<lambda>c. url c = url a) (combine_dedupe n r) = [a]"
    using distinct_map_filter_eq[OF combine_dedupe_distinct] by blast
  then show ?thesis using a au by simp
qed

text \<open>
  Claim C3, as amended. Each of the three deduplications (\<open>deduplicate_articles\<close> of
  utils/dedup.py, \<open>deduplicate\<close> of tech\_agent.py, the merge loop of finance\_agent.py and
  sports\_agent.py) outputs at most one record for each url and no record whose url is
  absent, and for each url of the input that is neither absent nor empty it outputs exactly
  one record. When several records share such a url, \<open>deduplicate_articles\<close> and
  \<open>deduplicate\<close> output the one that comes first in the input, and the merge loop outputs
  the one that comes last.
\<close>

theorem dedup_survivor:
  "distinct (map key (deduplicate_articles xs key))
   \<and> (\<forall>a \<in> set (deduplicate_articles xs key).
         key a \<noteq> None \<and> List.find (\<lambda>b. key b = key a) xs = Some a)
   \<and> (\<forall>b \<in> set xs. key b \<noteq> None \<and> key b \<noteq> Some [] \<longrightarrow>
         (\<exists>a. List.find (\<lambda>c. key c = key b) xs = Some a \<and>
              filter (\<lambda>c. key c = key b) (deduplicate_articles xs key) = [a]))
   \<and> distinct (map (\<lambda>a. get a ''url'') (deduplicate rs))
   \<and> (\<forall>a \<in> set (deduplicate rs).
         get a ''url'' \<noteq> None \<and> List.find (\<lambda>b. get b ''url'' = get a ''url'') rs = Some a)
   \<and> (\<forall>b \<in> set rs. get b ''url'' \<noteq> None \<and> get b ''url'' \<noteq> Some [] \<longrightarrow>
         (\<exists>a. List.find (\<lambda>c. get c ''url'' = get b ''url'') rs = Some a \<and>
              filter (\<lambda>c. get c ''url'' = get b ''url'') (deduplicate rs) = [a]))
   \<and> distinct (map url (combine_dedupe n r))
   \<and> (\<forall>a \<in> set (combine_dedupe n r).
         url a \<noteq> None \<and> List.find (\<lambda>b. url b = url a) (rev (n @ r)) = Some a)
   \<and> (\<forall>b \<in> set (n @ r). url b \<noteq> None \<and> url b \<noteq> Some [] \<longrightarrow>
         (\<exists>a. List.find (\<lambda>c. url c = url b) (rev (n @ r)) = Some a \<and>
              filter (\<lambda>c. url c = url b) (combine_dedupe n r) = [a]))"
proof -
  have t: "\<And>v. (v \<noteq> None \<and> v \<noteq> Some []) = truthy v"
    by (simp add: truthy_def split: option.splits)
  have 1: "distinct (map key (deduplicate_articles xs key))
     \<and> (\<forall>a \<in> set (deduplicate_articles xs key).
         key a \<noteq> None \<and> List.find (\<lambda>b. key b = key a) xs = Some a)"
    using deduplicate_articles_props[of key xs] by (auto simp: truthy_def split: option.splits)
  have 2: "\<forall>b \<in> set xs. key b \<noteq> None \<and> key b \<noteq> Some [] \<longrightarrow>
         (\<exists>a. List.find (\<lambda>c. key c = key b) xs = Some a \<and>
              filter (\<lambda>c. key c = key b) (deduplicate_articles xs key) = [a])"
    using deduplicate_articles_exactly_first[of _ xs key] unfolding t by blast
  have 3: "distinct (map (\<lambda>a. get a ''url'') (deduplicate rs))
     \<and> (\<forall>a \<in> set (deduplicate rs).
         get a ''url'' \<noteq> None \<and> List.find (\<lambda>b. get b ''url'' = get a ''url'') rs = Some a)"
    using deduplicate_articles_props[of "\<lambda>a. get a ''url''" rs]
    by (auto simp: truthy_def deduplicate_eq split: option.splits)
  have 4: "\<forall>b \<in> set rs. get b ''url'' \<noteq> None \<and> get b ''url'' \<noteq> Some [] \<longrightarrow>
         (\<exists>a. List.find (\<lambda>c. get c ''url'' = get b ''url'') rs = Some a \<and>
              filter (\<lambda>c. get c ''url'' = get b ''url'') (deduplicate rs) = [a])"
    using deduplicate_articles_exactly_first[of _ rs "\<lambda>a. get a ''url''"]
    unfolding t deduplicate_eq by blast
  have 5: "distinct (map url (combine_dedupe n r))
     \<and> (\<forall>a \<in> set (combine_dedupe n r).
         url a \<noteq> None \<and> List.find (\<lambda>b. url b = url a) (rev (n @ r)) = Some a)"
    using combine_dedupe_distinct[of n r] combine_dedupe_last[of _ n r]
    by (fastforce simp: truthy_def split: option.splits)
  have 6: "\<forall>b \<in> set (n @ r). url b \<noteq> None \<and> url b \<noteq> Some [] \<longrightarrow>
         (\<exists>a. List.find (\<lambda>c. url c = url b) (rev (n @ r)) = Some a \<and>
              filter (\<lambda>c. url c = url b) (combine_dedupe n r) = [a])"
    using combine_dedupe_exactly_last[of _ n r] unfolding t by blast
  from 1 2 3 4 5 6 show ?thesis by blast
qed

text \<open>
  The claim as stated, that the survivor is always the later record, fails for
  \<open>deduplicate_articles\<close>: of two records with the url \<open>u1\<close> the first one is kept.
\<close>

theorem dedup_survivor_counterexample:
  "deduplicate_articles
     [\<lparr>title = ''first'', summary = None, url = Some ''u1'', published = None, source = ''newsapi''\<rparr>,
      \<lparr>title = ''second'', summary = None, url = Some ''u1'', published = None, source = ''rss''\<rparr>]
     url
   = [\<lparr>title = ''first'', summary = None, url = Some ''u1'', published = None, source = ''newsapi''\<rparr>]"
  by (simp add: deduplicate_articles_def)

theorem dedup_survivor_witness:
  "deduplicate_articles
     [\<lparr>title = ''first'', summary = None, url = Some ''u1'', published = None, source = ''newsapi''\<rparr>,
      \<lparr>title = ''second'', summary = None, url = Some ''u1'', published = None, source = ''rss''\<rparr>]
     url
   = [\<lparr>title = ''first'', summary = None, url = Some ''u1'', published = None, source = ''newsapi''\<rparr>]
   \<and> List.find (\<lambda>b. url b = Some ''u1'')
        [\<lparr>title = ''first'', summary = None, url = Some ''u1'', published = None, source = ''newsapi''\<rparr>,
         \<lparr>title = ''second'', summary = None, url = Some ''u1'', published = None, source = ''rss''\<rparr>]
       = Some \<lparr>title = ''first'', summary = None, url = Some ''u1'', published = None, source = ''newsapi''\<rparr>
   \<and> combine_dedupe
        [\<lparr>title = ''first'', summary = None, url = Some ''u1'', published = None, source = ''newsapi''\<rparr>]
        [\<lparr>title = ''second'', summary = None, url = Some ''u1'', published = None, source = ''rss''\<rparr>]
       = [\<lparr>title = ''second'', summary = None, url = Some ''u1'', published = None, source = ''rss''\<rparr>]
   \<and> List.find (\<lambda>b. url b = Some ''u1'')
        (rev ([\<lparr>title = ''first'', summary = None, url = Some ''u1'', published = None, source = ''newsapi''\<rparr>] @
              [\<lparr>title = ''second'', summary = None, url = Some ''u1'', published = None, source = ''rss''\<rparr>]))
       = Some \<lparr>title = ''second'', summary = None, url = Some ''u1'', published = None, source = ''rss''\<rparr>"
  using dedup_survivor[of url
     "[\<lparr>title = ''first'', summary = None, url = Some ''u1'', published = None, source = ''newsapi''\<rparr>,
       \<lparr>title = ''second'', summary = None, url = Some ''u1'', published = None, source = ''rss''\<rparr>]"
     "[]"
     "[\<lparr>title = ''first'', summary = None, url = Some ''u1'', published = None, source = ''newsapi''\<rparr>]"
     "[\<lparr>title = ''second'', summary = None, url = Some ''u1'', published = None, source = ''rss''\<rparr>]"]
  by (simp add: deduplicate_articles_def combine_dedupe_def combined_put_def)

text \<open>
  Claim C2, as amended. In the merge step of finance\_agent.py and sports\_agent.py, when a
  search-API record and a feed record share a url that is neither absent nor empty, exactly
  one record with that url survives, and it is the last feed record with that url: the
  feed records stand behind the search-API records in the merged list and a later record
  overwrites an earlier one.
\<close>

theorem rss_record_survives_merge:
  assumes "s \<in> set newsapi_articles" "r \<in> set rss_articles"
      and "url s = url r" "truthy (url r)"
  shows "\<exists>a. filter (\<lambda>b. url b = url r) (combine_dedupe newsapi_articles rss_articles) = [a]
           \<and> List.find (\<lambda>b. url b = url r) (rev rss_articles) = Some a
           \<and> a \<in> set rss_articles"
proof -
  from assms(4) obtain u where u: "url r = Some u" "u \<noteq> []"
    by (auto simp: truthy_def split: option.splits)
  have "List.find (\<lambda>b. url b = url r) (rev rss_articles) \<noteq> None"
    using assms(2) by (auto simp: find_None_iff)
  then obtain a where a: "List.find (\<lambda>b. url b = url r) (rev rss_articles) = Some a" by auto
  then have a_in: "a \<in> set rss_articles" and a_url: "url a = url r"
    using find_Some_in[of "\<lambda>b. url b = url r" "rev rss_articles" a] by auto
  have "List.find (\<lambda>b. url b = url r) (rev (newsapi_articles @ rss_articles)) = Some a"
    using a find_append_left[of r "rev rss_articles" "\<lambda>b. url b = url r" "rev newsapi_articles"] assms(2)
    by simp
  then have "a \<in> set (combine_dedupe newsapi_articles rss_articles)"
    using combine_dedupe_has[of u newsapi_articles rss_articles a] u by simp
  then have "filter (\<lambda>b. url b = url a) (combine_dedupe newsapi_articles rss_articles) = [a]"
    using distinct_map_filter_eq[OF combine_dedupe_distinct] by blast
  then show ?thesis using a a_in a_url by simp
qed

text \<open>
  The claim as stated, that the search-API record survives, fails: the merged list holds
  the feed record.
\<close>

theorem merge_collision_counterexample:
  "combine_dedupe
     [\<lparr>title = ''api title'', summary = Some ''api text'', url = Some ''u1'',
       published = Some ''2024-01-02'', source = ''newsapi''\<rparr>]
     [\<lparr>title = ''feed title'', summary = Some ''feed text'', url = Some ''u1'',
       published = Some ''2024-01-05'', source = ''rss''\<rparr>]
   = [\<lparr>title = ''feed title'', summary = Some ''feed text'', url = Some ''u1'',
       published = Some ''2024-01-05'', source = ''rss''\<rparr>]"
  by (simp add: combine_dedupe_def combined_put_def)

theorem rss_record_survives_merge_witness:
  "\<exists>a. filter (\<lambda>b. url b = Some ''u1'')
         (combine_dedupe
            [\<lparr>title = ''api title'', summary = None, url = Some ''u1'', published = None, source = ''newsapi''\<rparr>]
            [\<lparr>title = ''feed title'', summary = None, url = Some ''u1'', published = None, source = ''rss''\<rparr>]) = [a]
       \<and> a = \<lparr>title = ''feed title'', summary = None, url = Some ''u1'', published = None, source = ''rss''\<rparr>"
  using rss_record_survives_merge[of
     "\<lparr>title = ''api title'', summary = None, url = Some ''u1'', published = None, source = ''newsapi''\<rparr>"
     "[\<lparr>title = ''api title'', summary = None, url = Some ''u1'', published = None, source = ''newsapi''\<rparr>]"
     "\<lparr>title = ''feed title'', summary = None, url = Some ''u1'', published = None, source = ''rss''\<rparr>"
     "[\<lparr>title = ''feed title'', summary = None, url = Some ''u1'', published = None, source = ''rss''\<rparr>]"]
  by (simp add: truthy_def)

section \<open>Properties of the fetch loops\<close>

lemma normalize_into_acc:
  "normalize_into src acc rs = (acc @ fst (normalize_into src [] rs), snd (normalize_into src [] rs))"
proof (induction rs arbitrary: acc)
  case Nil
  show ?case by simp
next
  case (Cons a rs)
  show ?case
  proof (cases "normalize_article a src")
    case (Inl e)
    then show ?thesis by simp
  next
    case (Inr n)
    then show ?thesis using Cons.IH[of "acc @ [n]"] Cons.IH[of "[n]"] by simp
  qed
qed

lemma normalize_into_kept:
  "fst (normalize_into src [] rs) =
     map projr (takeWhile (\<lambda>x. \<not> isl x) (map (\<lambda>a. normalize_article a src) rs))"
proof (induction rs)
  case Nil
  show ?case by simp
next
  case (Cons a rs)
  show ?case
  proof (cases "normalize_article a src")
    case (Inl e)
    then show ?thesis by simp
  next
    case (Inr n)
    then show ?thesis using Cons.IH normalize_into_acc[of src "[n]" rs] by simp
  qed
qed

lemma normalize_into_raised:
  "snd (normalize_into src [] rs) =
     (case List.find isl (map (\<lambda>a. normalize_article a src) rs) of
        None \<Rightarrow> None
      | Some x \<Rightarrow> Some (projl x))"
proof (induction rs)
  case Nil
  show ?case by simp
next
  case (Cons a rs)
  show ?case
  proof (cases "normalize_article a src")
    case (Inl e)
    then show ?thesis by simp
  next
    case (Inr n)
    then show ?thesis using Cons.IH normalize_into_acc[of src "[n]" rs] by simp
  qed
qed

lemma newsapi_loop_concat:
  "newsapi_loop api acc qs =
     acc @ concat (map (\<lambda>q. case api q of
                               Inl e \<Rightarrow> []
                             | Inr res \<Rightarrow> map projr (takeWhile (\<lambda>x. \<not> isl x)
                                            (map (\<lambda>a. normalize_article a ''newsapi'') res))) qs)"
proof (induction qs arbitrary: acc)
  case Nil
  show ?case by simp
next
  case (Cons q qs)
  show ?case
  proof (cases "api q")
    case (Inl e)
    then show ?thesis using Cons.IH[of acc] by simp
  next
    case (Inr res)
    have "fst (normalize_into ''newsapi'' acc res) = acc @ fst (normalize_into ''newsapi'' [] res)"
      using normalize_into_acc[of "''newsapi''" acc res] by simp
    then show ?thesis using Inr Cons.IH[of "fst (normalize_into ''newsapi'' acc res)"]
      by (simp add: normalize_into_kept)
  qed
qed

lemma find_append_cases:
  "List.find P (xs @ ys) = (case List.find P xs of None \<Rightarrow> List.find P ys | Some x \<Rightarrow> Some x)"
  by (induction xs) auto

lemma takeWhile_no_isl:
  "List.find isl xs = None \<Longrightarrow> takeWhile (\<lambda>x. \<not> isl x) xs = xs"
  by (induction xs) (auto split: if_splits)

lemma rss_loop_concat:
  "rss_loop feed acc feeds =
     (case List.find isl (concat (map (\<lambda>u. map (\<lambda>e. normalize_article (entry_dict e) ''rss'')
                                              (take MAX_RSS (feed u))) feeds)) of
        None \<Rightarrow> Inr (acc @ map projr (concat (map (\<lambda>u. map (\<lambda>e. normalize_article (entry_dict e) ''rss'')
                                                       (take MAX_RSS (feed u))) feeds)))
      | Some x \<Rightarrow> Inl (projl x))"
proof (induction feeds arbitrary: acc)
  case Nil
  show ?case by simp
next
  case (Cons u feeds)
  let ?rs = "map entry_dict (take MAX_RSS (feed u))"
  let ?ns = "map (\<lambda>e. normalize_article (entry_dict e) ''rss'') (take MAX_RSS (feed u))"
  have ns: "map (\<lambda>a. normalize_article a ''rss'') ?rs = ?ns" by (simp add: comp_def)
  have ni: "normalize_into ''rss'' acc ?rs =
      (acc @ map projr (takeWhile (\<lambda>x. \<not> isl x) ?ns),
       case List.find isl ?ns of None \<Rightarrow> None | Some x \<Rightarrow> Some (projl x))"
    using normalize_into_acc[of "''rss''" acc ?rs] normalize_into_kept[of "''rss''" ?rs]
          normalize_into_raised[of "''rss''" ?rs]
    by (simp only: ns)
  show ?case
  proof (cases "List.find isl ?ns")
    case None
    then have "normalize_into ''rss'' acc ?rs = (acc @ map projr ?ns, None)"
      using ni by (simp add: takeWhile_no_isl)
    then show ?thesis using None Cons.IH[of "acc @ map projr ?ns"]
      by (simp add: find_append_cases split: option.splits)
  next
    case (Some x)
    then show ?thesis using ni by (simp add: find_append_cases)
  qed
qed

text \<open>
  Claim C7. \<open>fetch_newsapi_articles\<close> concatenates, over the queries, the records of each
  response (none when the call fails; those before the first record whose normalisation
  raises otherwise) and cuts the concatenation, once, to \<open>MAX_NEWSAPI\<close>.
  \<open>fetch_rss_feeds\<close> cuts the entries of each feed to \<open>MAX_RSS\<close>, normalises them and
  concatenates over the feeds: it returns the concatenation, or the first exception that
  a normalisation among these entries raises.
\<close>

theorem fetch_caps:
  "fetch_newsapi_articles api queries =
     take MAX_NEWSAPI
       (concat (map (\<lambda>q. case api q of
                            Inl e \<Rightarrow> []
                          | Inr res \<Rightarrow> map projr (takeWhile (\<lambda>x. \<not> isl x)
                                         (map (\<lambda>a. normalize_article a ''newsapi'') res)))
                    queries))
   \<and> fetch_rss_feeds feed feeds =
       (case List.find isl (concat (map (\<lambda>u. map (\<lambda>e. normalize_article (entry_dict e) ''rss'')
                                                (take MAX_RSS (feed u))) feeds)) of
          None \<Rightarrow> Inr (map projr (concat (map (\<lambda>u. map (\<lambda>e. normalize_article (entry_dict e) ''rss'')
                                                    (take MAX_RSS (feed u))) feeds)))
        | Some x \<Rightarrow> Inl (projl x))"
  using newsapi_loop_concat[of api "[]" queries] rss_loop_concat[of feed "[]" feeds]
  by (simp add: fetch_newsapi_articles_def fetch_rss_feeds_def split: option.splits)

text \<open>
  One query whose response holds twelve different records delivers the first ten of them;
  two queries with six records each deliver the six of the first and four of the second.
  A feed of eleven entries delivers its first ten, and so does each further feed. A feed
  with an entry that has no title makes the fetch raise.
\<close>

theorem fetch_caps_witness:
  "fetch_newsapi_articles
     (\<lambda>q. Inr (map (\<lambda>s. map_of [(''title'', Some s), (''url'', Some s)])
                 [''a'', ''b'', ''c'', ''d'', ''e'', ''f'', ''g'', ''h'', ''i'', ''j'', ''k'', ''l'']))
     [JStr ''q1'']
   = map (\<lambda>s. \<lparr>title = s, summary = Some [], url = Some s, published = None, source = ''newsapi''\<rparr>)
       [''a'', ''b'', ''c'', ''d'', ''e'', ''f'', ''g'', ''h'', ''i'', ''j'']
   \<and> fetch_newsapi_articles
       (\<lambda>q. if q = JStr ''q1''
             then Inr (map (\<lambda>s. map_of [(''title'', Some s), (''url'', Some s)])
                        [''a'', ''b'', ''c'', ''d'', ''e'', ''f''])
             else Inr (map (\<lambda>s. map_of [(''title'', Some s), (''url'', Some s)])
                        [''g'', ''h'', ''i'', ''j'', ''k'', ''l'']))
       [JStr ''q1'', JStr ''q2'']
     = map (\<lambda>s. \<lparr>title = s, summary = Some [], url = Some s, published = None, source = ''newsapi''\<rparr>)
         [''a'', ''b'', ''c'', ''d'', ''e'', ''f'', ''g'', ''h'', ''i'', ''j'']
   \<and> fetch_rss_feeds
       (\<lambda>u. map (\<lambda>s. map_of [(''title'', Some s), (''link'', Some s)])
               (if u = ''f1''
                then [''a'', ''b'', ''c'', ''d'', ''e'', ''f'', ''g'', ''h'', ''i'', ''j'', ''k'']
                else [''m'', ''n'']))
       [''f1'', ''f2'']
     = Inr (map (\<lambda>s. \<lparr>title = s, summary = Some [], url = Some s, published = None, source = ''rss''\<rparr>)
         [''a'', ''b'', ''c'', ''d'', ''e'', ''f'', ''g'', ''h'', ''i'', ''j'', ''m'', ''n''])
   \<and> fetch_rss_feeds (\<lambda>u. [map_of [(''link'', Some ''x'')]]) [''f1''] = Inl AttributeError"
  using fetch_caps[of
      "\<lambda>q. Inr (map (\<lambda>s. map_of [(''title'', Some s), (''url'', Some s)])
                 [''a'', ''b'', ''c'', ''d'', ''e'', ''f'', ''g'', ''h'', ''i'', ''j'', ''k'', ''l''])"
      "[JStr ''q1'']"
      "\<lambda>u. [map_of [(''link'', Some ''x'')]]" "[''f1'']"]
    fetch_caps[of
      "\<lambda>q. if q = JStr ''q1''
             then Inr (map (\<lambda>s. map_of [(''title'', Some s), (''url'', Some s)])
                        [''a'', ''b'', ''c'', ''d'', ''e'', ''f''])
             else Inr (map (\<lambda>s. map_of [(''title'', Some s), (''url'', Some s)])
                        [''g'', ''h'', ''i'', ''j'', ''k'', ''l''])"
      "[JStr ''q1'', JStr ''q2'']"
      "\<lambda>u. map (\<lambda>s. map_of [(''title'', Some s), (''link'', Some s)])
               (if u = ''f1''
                then [''a'', ''b'', ''c'', ''d'', ''e'', ''f'', ''g'', ''h'', ''i'', ''j'', ''k'']
                else [''m'', ''n''])"
      "[''f1'', ''f2'']"]
  by (simp add: MAX_RSS_def MAX_NEWSAPI_def normalize_article_def entry_dict_def get_def
        get_default_def py_or_def truthy_def strip_def isspace_def)

section \<open>Properties of json\_utils\<close>

lemma set_strip: "set (strip s) \<subseteq> set s"
proof -
  have "set (strip s) \<subseteq> set (rev (dropWhile isspace s))"
    unfolding strip_def using set_dropWhileD by fastforce
  also have "\<dots> \<subseteq> set s" using set_dropWhileD by fastforce
  finally show ?thesis .
qed

lemma set_sub_fences: "set (sub_fences bol s) \<subseteq> set s"
proof (induction bol s rule: sub_fences.induct)
  case (1 bol s)
  show ?case
  proof (cases "s = []")
    case True
    then show ?thesis by (simp add: sub_fences.simps)
  next
    case ne: False
    show ?thesis
    proof (cases "take 3 s = fence \<and> bol")
      case True
      show ?thesis
      proof (cases "take 4 (drop 3 s) = ''json''")
        case j: True
        have "set (sub_fences False (drop 7 s)) \<subseteq> set (drop 7 s)" using "1.IH"(1) ne True j by simp
        also have "\<dots> \<subseteq> set s" by (rule set_drop_subset)
        finally show ?thesis using ne True j by (subst sub_fences.simps) simp
      next
        case j: False
        have "set (sub_fences False (drop 3 s)) \<subseteq> set (drop 3 s)" using "1.IH"(2) ne True j by simp
        also have "\<dots> \<subseteq> set s" by (rule set_drop_subset)
        finally show ?thesis using ne True j by (subst sub_fences.simps) simp
      qed
    next
      case nb: False
      show ?thesis
      proof (cases "take 3 s = fence \<and> (drop 3 s = [] \<or> hd (drop 3 s) = CHR 10)")
        case True
        have "set (sub_fences False (drop 3 s)) \<subseteq> set (drop 3 s)" using "1.IH"(3) ne nb True by simp
        also have "\<dots> \<subseteq> set s" by (rule set_drop_subset)
        finally show ?thesis using ne nb True by (subst sub_fences.simps) auto
      next
        case False
        have "set (sub_fences (hd s = CHR 10) (tl s)) \<subseteq> set (tl s)" using "1.IH"(4) ne nb False by simp
        moreover have "set (tl s) \<subseteq> set s" "hd s \<in> set s" using ne by (auto simp: list.set_sel)
        ultimately show ?thesis using ne nb False by (subst sub_fences.simps) auto
      qed
    qed
  qed
qed

lemma search_json_None:
  "CHR 0x7B \<notin> set s \<Longrightarrow> CHR ''['' \<notin> set s \<Longrightarrow> search_json s = None"
  by (induction s) auto

lemma search_json_None_close:
  "CHR 0x7D \<notin> set s \<Longrightarrow> CHR '']'' \<notin> set s \<Longrightarrow> search_json s = None"
  by (induction s) auto

lemma extract_json_block_no_open:
  assumes "CHR 0x7B \<notin> set text" "CHR ''['' \<notin> set text"
  shows "extract_json_block text = None"
proof -
  have "set (strip (sub_fences True (strip text))) \<subseteq> set text"
    using set_strip set_sub_fences by fast
  then show ?thesis using assms search_json_None by (auto simp: extract_json_block_def)
qed

lemma extract_json_block_prose: "extract_json_block ''Here: [1, 2] ok'' = Some ''[1, 2]''"
  by (simp add: extract_json_block_def strip_def isspace_def sub_fences.simps fence_def upto_last_def)

lemma extract_json_block_fenced: "extract_json_block (fence @ ''json'' @ [CHR 10] @ ''{\"a\": [1]}'' @ [CHR 10] @ fence) = Some ''{\"a\": [1]}''"
  by (simp add: extract_json_block_def strip_def isspace_def sub_fences.simps fence_def upto_last_def)

text \<open>
  What holds of \<open>safe_json_loads\<close> as long as the parser raises nothing but
  JSONDecodeError: it never raises, it returns \<open>None\<close> on a text with no opening brace or
  bracket, and it returns a value only if a block was extracted and the parser accepted it.
\<close>

lemma safe_json_loads_with_decode_errors_only:
  assumes "\<forall>b e. loads b = Inl e \<longrightarrow> e = JSONDecodeError"
  shows "extract_json_block [] = None
       \<and> (CHR 0x7B \<notin> set text \<and> CHR ''['' \<notin> set text \<longrightarrow>
            extract_json_block text = None \<and> safe_json_loads loads text = Inr None)
       \<and> (\<exists>r. safe_json_loads loads text = Inr r \<and>
            (\<forall>v. r = Some v \<longrightarrow> (\<exists>b. extract_json_block text = Some b \<and> loads b = Inr v)))"
proof -
  have a: "extract_json_block [] = None" by (simp add: extract_json_block_def)
  have b: "CHR 0x7B \<notin> set text \<and> CHR ''['' \<notin> set text \<longrightarrow>
            extract_json_block text = None \<and> safe_json_loads loads text = Inr None"
    using extract_json_block_no_open[of "text"] by (simp add: safe_json_loads_def)
  have c: "\<exists>r. safe_json_loads loads text = Inr r \<and>
            (\<forall>v. r = Some v \<longrightarrow> (\<exists>b. extract_json_block text = Some b \<and> loads b = Inr v))"
  proof (cases "extract_json_block text")
    case None
    then show ?thesis by (simp add: safe_json_loads_def)
  next
    case (Some blk)
    show ?thesis
    proof (cases "loads blk")
      case (Inl e)
      then have "e = JSONDecodeError" using assms by blast
      then show ?thesis using Some Inl by (simp add: safe_json_loads_def)
    next
      case (Inr v)
      then show ?thesis using Some by (simp add: safe_json_loads_def)
    qed
  qed
  from a b c show ?thesis by blast
qed

lemma safe_json_loads_examples:
  "safe_json_loads (\<lambda>s. if s = ''[1, 2]'' then Inr (JArr [JNum 1, JNum 2]) else Inl JSONDecodeError)
      ''Here you go: [1, 2] as asked'' = Inr (Some (JArr [JNum 1, JNum 2]))
   \<and> safe_json_loads (\<lambda>s. if s = ''[1, 2]'' then Inr (JArr [JNum 1, JNum 2]) else Inl JSONDecodeError)
      ''no json here'' = Inr None
   \<and> safe_json_loads (\<lambda>s. if s = ''[1, 2]'' then Inr (JArr [JNum 1, JNum 2]) else Inl JSONDecodeError)
      ''[1, 2'' = Inr None
   \<and> safe_json_loads (\<lambda>s. if s = ''[1, 2]'' then Inr (JArr [JNum 1, JNum 2]) else Inl JSONDecodeError)
      ''[oops]'' = Inr None"
  by (simp add: safe_json_loads_def extract_json_block_def strip_def isspace_def sub_fences.simps
        fence_def upto_last_def)

lemma safe_json_loads_value_only_if_parsed:
  "safe_json_loads loads text = Inr (Some v) \<Longrightarrow>
   \<exists>b. extract_json_block text = Some b \<and> loads b = Inr v"
  by (auto simp: safe_json_loads_def split: option.splits sum.splits if_splits)

lemma safe_json_loads_passes_on:
  "extract_json_block text = Some b \<Longrightarrow> b \<noteq> [] \<Longrightarrow> loads b = Inl e \<Longrightarrow> e \<noteq> JSONDecodeError \<Longrightarrow>
   safe_json_loads loads text = Inl e"
  by (simp add: safe_json_loads_def)

lemma strip_id: "s \<noteq> [] \<Longrightarrow> \<not> isspace (hd s) \<Longrightarrow> \<not> isspace (last s) \<Longrightarrow> strip s = s"
proof -
  assume a: "s \<noteq> []" "\<not> isspace (hd s)" "\<not> isspace (last s)"
  have 1: "dropWhile isspace s = s" using a(2) by (simp add: dropWhile_eq_self_iff)
  have "dropWhile isspace (rev s) = rev s" using a(3) by (simp add: dropWhile_eq_self_iff hd_rev)
  then show ?thesis using 1 by (simp add: strip_def)
qed

lemma sub_fences_id: "CHR 0x60 \<notin> set s \<Longrightarrow> sub_fences bol s = s"
proof (induction bol s rule: sub_fences.induct)
  case (1 bol s)
  show ?case
  proof (cases "s = []")
    case True
    then show ?thesis by (simp add: sub_fences.simps)
  next
    case False
    have nf: "take 3 s \<noteq> fence"
    proof
      assume "take 3 s = fence"
      then have "CHR 0x60 \<in> set (take 3 s)" by (simp add: fence_def)
      then show False using "1.prems" by (auto dest: in_set_takeD)
    qed
    have "CHR 0x60 \<notin> set (tl s)" using "1.prems" False by (auto dest: list.set_sel(2))
    then have "sub_fences (hd s = CHR 10) (tl s) = tl s" using "1.IH"(4) False nf by simp
    then show ?thesis using False nf by (subst sub_fences.simps) simp
  qed
qed

lemma upto_last_id: "s \<noteq> [] \<Longrightarrow> last s = c \<Longrightarrow> upto_last c s = s"
proof -
  assume "s \<noteq> []" "last s = c"
  then have "\<not> (hd (rev s) \<noteq> c)" by (simp add: hd_rev)
  then have "dropWhile (\<lambda>x. x \<noteq> c) (rev s) = rev s"
    using dropWhile_eq_self_iff[of "\<lambda>x. x \<noteq> c" "rev s"] by blast
  then show ?thesis by (simp add: upto_last_def)
qed

lemma extract_json_block_nested:
  "extract_json_block (replicate (Suc n) CHR ''['' @ replicate (Suc m) CHR '']'')
     = Some (replicate (Suc n) CHR ''['' @ replicate (Suc m) CHR '']'')"
proof -
  let ?s = "replicate (Suc n) CHR ''['' @ replicate (Suc m) CHR '']''"
  let ?cs = "replicate n CHR ''['' @ replicate (Suc m) CHR '']''"
  have s: "?s = CHR ''['' # ?cs" by simp
  have "?s \<noteq> []" "\<not> isspace (hd ?s)" "\<not> isspace (last ?s)"
    by (simp_all add: isspace_def)
  then have st: "strip ?s = ?s" by (rule strip_id)
  have "CHR 0x60 \<notin> set ?s" by auto
  then have sf: "sub_fences True ?s = ?s" by (rule sub_fences_id)
  have "?cs \<noteq> []" "last ?cs = CHR '']''" by simp_all
  then have "upto_last CHR '']'' ?cs = ?cs" by (rule upto_last_id)
  moreover have "CHR '']'' \<in> set ?cs" by simp
  ultimately have "search_json (CHR ''['' # ?cs) = Some (CHR ''['' # ?cs)" by simp
  then have "search_json ?s = Some ?s" by (simp only: s)
  then show ?thesis using st sf by (simp add: extract_json_block_def)
qed

text \<open>
  Claim C9 at a failing input. The text is a thousand opening brackets followed by a
  thousand closing brackets. \<open>extract_json_block\<close> returns the whole text as the block;
  \<open>json.loads\<close> exceeds the recursion depth on it and raises RecursionError, which is not a
  JSONDecodeError, so \<open>safe_json_loads\<close> raises it too, where its docstring promises
  \<open>None\<close>.
\<close>

theorem safe_json_loads_raises:
  "safe_json_loads
     (\<lambda>s. if s = replicate 1000 CHR ''['' @ replicate 1000 CHR '']'' then Inl RecursionError
           else Inl JSONDecodeError)
     (replicate 1000 CHR ''['' @ replicate 1000 CHR '']'')
   = Inl RecursionError"
proof -
  have "extract_json_block (replicate 1000 CHR ''['' @ replicate 1000 CHR '']'')
          = Some (replicate 1000 CHR ''['' @ replicate 1000 CHR '']'')"
    using extract_json_block_nested[of 999 999] by simp
  then show ?thesis by (simp add: safe_json_loads_def)
qed

section \<open>Properties of ranking, classification and selection\<close>

lemmas io_defs = io_return_def io_bind_def io_lift_def io_try_def invoke_def

lemma insert_desc_mset: "insert_desc x ys = Inr zs \<Longrightarrow> mset zs = add_mset x (mset ys)"
proof (induction ys arbitrary: zs)
  case Nil
  then show ?case by auto
next
  case (Cons y ys)
  then show ?case by (auto split: sum.splits bool.splits if_splits)
qed

lemma sort_desc_mset: "sort_desc xs = Inr ys \<Longrightarrow> mset ys = mset xs"
proof (induction xs arbitrary: ys)
  case Nil
  then show ?case by simp
next
  case (Cons x xs)
  then show ?case by (auto split: sum.splits dest: insert_desc_mset)
qed

lemma sort_by_recency_mset:
  assumes "sort_by_recency dp as = Inr out"
  shows "mset out = mset as"
proof -
  let ?keyed = "map (\<lambda>x. (parse_date_safe dp (published x), x)) as"
  from assms obtain ks where ks: "sort_desc ?keyed = Inr ks" "out = map snd ks"
    by (auto simp: sort_by_recency_def split: sum.splits)
  have "mset ks = mset ?keyed" using ks(1) by (rule sort_desc_mset)
  then have "mset (map snd ks) = mset (map snd ?keyed)" by (metis mset_map)
  then show ?thesis using ks(2) by (simp add: comp_def)
qed

lemma submit_all_articles: "map snd (snd (submit_all task as t)) = as"
proof (induction as arbitrary: t)
  case Nil
  show ?case by simp
next
  case (Cons a as)
  obtain t1 r where 1: "task a t = (t1, r)" by force
  obtain t2 fs where 2: "submit_all task as t1 = (t2, fs)" by force
  show ?case using 1 2 Cons.IH[of t1] by simp
qed

lemma as_completed_mset: "mset (as_completed tm fs) = mset fs"
proof -
  let ?z = "zip (map tm [0..<length fs]) fs"
  have z: "map snd ?z = fs" by (simp add: map_snd_zip)
  have "image_mset snd (mset ?z) = mset (map snd ?z)" by (rule mset_map[symmetric])
  then have "image_mset snd (mset ?z) = mset fs" unfolding z .
  then show ?thesis by (simp add: as_completed_def)
qed

lemma collect_relevant_Inr:
  "collect_relevant acc fs = Inr out \<Longrightarrow> out = acc @ map snd (filter (\<lambda>f. fst f = Inr True) fs)"
proof (induction fs arbitrary: acc)
  case Nil
  then show ?case by simp
next
  case (Cons f fs)
  obtain r a where f: "f = (r, a)" by force
  show ?case using Cons.prems f Cons.IH[of "acc @ [a]"] Cons.IH[of acc]
    by (auto split: sum.splits if_splits)
qed

lemma collect_relevant_total:
  "\<forall>f \<in> set fs. \<exists>b. fst f = Inr b \<Longrightarrow>
   collect_relevant acc fs = Inr (acc @ map snd (filter (\<lambda>f. fst f = Inr True) fs))"
proof (induction fs arbitrary: acc)
  case Nil
  then show ?case by simp
next
  case (Cons f fs)
  obtain r a where f: "f = (r, a)" by force
  from Cons.prems f obtain b where b: "r = Inr b" by auto
  have rest: "\<forall>f \<in> set fs. \<exists>b. fst f = Inr b" using Cons.prems by simp
  show ?case
  proof (cases b)
    case True
    then show ?thesis using f b Cons.IH[OF rest, of "acc @ [a]"] by simp
  next
    case False
    then show ?thesis using f b Cons.IH[OF rest, of acc] by simp
  qed
qed






section \<open>Properties of the runs\<close>

lemma generate_queries_finance_trace:
  "fst (generate_queries_finance lm loads t) = t @ [QUERY_PROMPT]"
  by (auto simp: generate_queries_finance_def io_defs split: sum.splits option.splits)

lemma generate_queries_sports_trace:
  "fst (generate_queries_sports lm loads t) = t @ [QUERY_PROMPT]"
  by (auto simp: generate_queries_sports_def io_defs split: sum.splits option.splits)

lemma generate_queries_tech_trace:
  "fst (generate_queries_tech lm loads t) = t @ [QUERY_PROMPT]"
  by (auto simp: generate_queries_tech_def io_defs split: sum.splits option.splits)

lemma io_bind_lift_trace: "fst (io_bind (io_lift r) f t) = (case r of Inl e \<Rightarrow> t | Inr x \<Rightarrow> fst (f x t))"
  by (simp add: io_defs split: sum.splits)

lemma select_finance_trace: "fst (select_finance env t) = t @ [QUERY_PROMPT]"
proof -
  obtain t1 r where g: "generate_queries_finance (llm env) (json_loads env) t = (t1, r)" by force
  then have t1: "t1 = t @ [QUERY_PROMPT]"
    using generate_queries_finance_trace[of "llm env" "json_loads env" t] by simp
  show ?thesis
    using g t1
    by (auto simp: select_finance_def io_defs Let_def split: sum.splits prod.splits)
qed

lemma submit_all_sports_trace:
  "fst (submit_all (classify_article_sports lm) as t) =
     t @ map (\<lambda>a. CLASSIFY_PROMPT (Some (title a)) (summary a)) as"
proof (induction as arbitrary: t)
  case Nil
  show ?case by simp
next
  case (Cons a as)
  have 1: "fst (classify_article_sports lm a t) = t @ [CLASSIFY_PROMPT (Some (title a)) (summary a)]"
    by (auto simp: classify_article_sports_def io_defs split: sum.splits)
  obtain t1 r where 2: "classify_article_sports lm a t = (t1, r)" by force
  obtain t2 fs where 3: "submit_all (classify_article_sports lm) as t1 = (t2, fs)" by force
  show ?case using 1 2 3 Cons.IH[of t1] by simp
qed

lemma submit_all_tech_trace:
  "fst (submit_all (classify_article_tech lm) as t) =
     t @ map (\<lambda>a. CLASSIFY_PROMPT (get_default a ''title'' []) (get_default a ''summary'' [])) as"
proof (induction as arbitrary: t)
  case Nil
  show ?case by simp
next
  case (Cons a as)
  have 1: "fst (classify_article_tech lm a t) =
             t @ [CLASSIFY_PROMPT (get_default a ''title'' []) (get_default a ''summary'' [])]"
    by (auto simp: classify_article_tech_def io_defs split: sum.splits)
  obtain t1 r where 2: "classify_article_tech lm a t = (t1, r)" by force
  obtain t2 fs where 3: "submit_all (classify_article_tech lm) as t1 = (t2, fs)" by force
  show ?case using 1 2 3 Cons.IH[of t1] by simp
qed

lemma classify_parallel_trace:
  "fst (classify_parallel tm task as t) = fst (submit_all task as t)"
  by (simp add: classify_parallel_def split: prod.splits)

lemma select_sports_trace:
  "\<exists>as :: article list. fst (select_sports env t) =
          t @ QUERY_PROMPT # map (\<lambda>a. CLASSIFY_PROMPT (Some (title a)) (summary a)) as"
proof -
  let ?P = "\<lambda>as :: article list. fst (select_sports env t) =
          t @ QUERY_PROMPT # map (\<lambda>a. CLASSIFY_PROMPT (Some (title a)) (summary a)) as"
  obtain t1 r where g: "generate_queries_sports (llm env) (json_loads env) t = (t1, r)" by force
  then have t1: "t1 = t @ [QUERY_PROMPT]"
    using generate_queries_sports_trace[of "llm env" "json_loads env" t] by simp
  have early: "?P []" if "fst (select_sports env t) = t @ [QUERY_PROMPT]"
    using that by simp
  show ?thesis
  proof (cases r)
    case (Inl e)
    have "fst (select_sports env t) = t @ [QUERY_PROMPT]"
      using g t1 Inl by (simp add: select_sports_def io_defs)
    then show ?thesis using early by (intro exI)
  next
    case (Inr queries)
    show ?thesis
    proof (cases "py_iter queries")
      case (Inl e)
      have "fst (select_sports env t) = t @ [QUERY_PROMPT]"
        using g t1 Inr Inl by (simp add: select_sports_def io_defs)
      then show ?thesis using early by (intro exI)
    next
      case qs: (Inr qs)
      show ?thesis
      proof (cases "fetch_rss_articles_sports (entries env)")
        case (Inl e)
        have "fst (select_sports env t) = t @ [QUERY_PROMPT]"
          using g t1 Inr qs Inl by (simp add: select_sports_def io_defs Let_def)
        then show ?thesis using early by (intro exI)
      next
        case rss: (Inr rss)
        show ?thesis
        proof (cases "sort_by_recency (date_parse env)
                 (combine_dedupe (fetch_newsapi_articles (get_everything env) qs) rss)")
          case (Inl e)
          have "fst (select_sports env t) = t @ [QUERY_PROMPT]"
            using g t1 Inr qs rss Inl by (simp add: select_sports_def io_defs Let_def)
          then show ?thesis using early by (intro exI)
        next
          case srt: (Inr sorted)
          obtain t2 r2 where c: "classify_parallel (completion_time env)
             (classify_article_sports (llm env)) sorted t1 = (t2, r2)" by force
          have "fst (classify_parallel (completion_time env) (classify_article_sports (llm env)) sorted t1)
              = t1 @ map (\<lambda>a. CLASSIFY_PROMPT (Some (title a)) (summary a)) sorted"
            by (simp add: classify_parallel_trace submit_all_sports_trace)
          then have t2: "t2 = t @ QUERY_PROMPT # map (\<lambda>a. CLASSIFY_PROMPT (Some (title a)) (summary a)) sorted"
            using c t1 by simp
          have "fst (select_sports env t) = t2" using g Inr qs rss srt c
            by (cases r2) (simp_all add: select_sports_def io_defs Let_def)
          then have "?P sorted" using t2 by simp
          then show ?thesis by (intro exI)
        qed
      qed
    qed
  qed
qed

lemma run_finance_empty:
  "select_finance env t0 = (t, Inr []) \<Longrightarrow> run_finance_agent env t0 = (t, Inr EmptyDigest)"
  by (simp add: run_finance_agent_def io_defs)

lemma run_sports_empty:
  "select_sports env t0 = (t, Inr []) \<Longrightarrow> run_sports_agent env t0 = (t, Inr EmptyDigest)"
  by (simp add: run_sports_agent_def io_defs)

lemma run_finance_summarizes:
  assumes "select_finance env t0 = (t, Inr final)" "final \<noteq> []" "get_stock_price env = Inr price"
  shows "fst (run_finance_agent env t0) = t @ [SUMMARY_PROMPT (numbered_titles final)]"
  using assms
  by (auto simp: run_finance_agent_def summarize_articles_finance_def io_defs split: sum.splits)

lemma run_sports_summarizes:
  assumes "select_sports env t0 = (t, Inr final)" "final \<noteq> []"
  shows "fst (run_sports_agent env t0) = t @ [SUMMARY_PROMPT (numbered_titles final)]"
  using assms
  by (auto simp: run_sports_agent_def summarize_articles_sports_def io_defs split: sum.splits)

text \<open>
  Claim C8. In a run of the finance agent or of the sports agent whose truncated selection
  \<open>final_articles\<close> is empty, the result is the empty digest and no summary prompt has been
  sent to the model.
\<close>

theorem empty_selection_empty_digest:
  "(select_finance env [] = (t, Inr []) \<longrightarrow>
      run_finance_agent env [] = (t, Inr EmptyDigest) \<and> (\<forall>s. SUMMARY_PROMPT s \<notin> set t))
   \<and> (select_sports env [] = (t, Inr []) \<longrightarrow>
      run_sports_agent env [] = (t, Inr EmptyDigest) \<and> (\<forall>s. SUMMARY_PROMPT s \<notin> set t))"
proof -
  have f: "select_finance env [] = (t, Inr []) \<longrightarrow>
      run_finance_agent env [] = (t, Inr EmptyDigest) \<and> (\<forall>s. SUMMARY_PROMPT s \<notin> set t)"
  proof
    assume a: "select_finance env [] = (t, Inr [])"
    then have "t = [QUERY_PROMPT]" using select_finance_trace[of env "[]"] by simp
    then show "run_finance_agent env [] = (t, Inr EmptyDigest) \<and> (\<forall>s. SUMMARY_PROMPT s \<notin> set t)"
      using run_finance_empty[OF a] by simp
  qed
  have s: "select_sports env [] = (t, Inr []) \<longrightarrow>
      run_sports_agent env [] = (t, Inr EmptyDigest) \<and> (\<forall>s. SUMMARY_PROMPT s \<notin> set t)"
  proof
    assume a: "select_sports env [] = (t, Inr [])"
    obtain as :: "article list" where "fst (select_sports env []) =
        [] @ QUERY_PROMPT # map (\<lambda>a. CLASSIFY_PROMPT (Some (title a)) (summary a)) as"
      using select_sports_trace[of env "[]"] by blast
    then have "t = QUERY_PROMPT # map (\<lambda>a. CLASSIFY_PROMPT (Some (title a)) (summary a)) as"
      using a by simp
    then show "run_sports_agent env [] = (t, Inr EmptyDigest) \<and> (\<forall>s. SUMMARY_PROMPT s \<notin> set t)"
      using run_sports_empty[OF a] by auto
  qed
  from f s show ?thesis by blast
qed

theorem empty_selection_empty_digest_witness:
  "select_finance env_no_news [] = ([QUERY_PROMPT], Inr [])
   \<and> run_finance_agent env_no_news [] = ([QUERY_PROMPT], Inr EmptyDigest)
   \<and> select_sports env_no_news [] = ([QUERY_PROMPT], Inr [])
   \<and> run_sports_agent env_no_news [] = ([QUERY_PROMPT], Inr EmptyDigest)"
proof -
  have f: "select_finance env_no_news [] = ([QUERY_PROMPT], Inr [])"
    by (simp add: select_finance_def env_no_news_def generate_queries_finance_def io_defs
          fallback_finance_def fetch_newsapi_articles_def
          fetch_rss_articles_finance_def combine_dedupe_def sort_by_recency_def)
  have s: "select_sports env_no_news [] = ([QUERY_PROMPT], Inr [])"
    by (simp add: select_sports_def env_no_news_def generate_queries_sports_def io_defs
          fallback_sports_def fetch_newsapi_articles_def
          fetch_rss_articles_sports_def fetch_rss_feeds_def get_rss_feeds_def SPORT_def
          lower_def lower_char_def CRICKET_RSS_def
          combine_dedupe_def sort_by_recency_def classify_parallel_def as_completed_def)
  show ?thesis
    using empty_selection_empty_digest[of env_no_news "[QUERY_PROMPT]"] f s by simp
qed









section \<open>Where the agents leave the specified behaviour\<close>

lemma yes_positive: "startswith (upper (strip ''YES'')) ''YES''"
  by (simp add: startswith_def upper_def upper_char_def strip_def isspace_def)

text \<open>
  Claim C1 at a failing input. The ranked list is \<open>[first, second]\<close>, both records are
  classified positive, and the task of the second record completes before the task of the
  first: the list of relevant records is \<open>[second, first]\<close>, in completion order, in the
  sports agent and in the tech agent alike.
\<close>

theorem classification_follows_completion_order:
  "classify_parallel (\<lambda>i. 1 - i) (classify_article_sports (\<lambda>p. Inr ''YES''))
     [\<lparr>title = ''first'', summary = None, url = Some ''u1'', published = None, source = ''rss''\<rparr>,
      \<lparr>title = ''second'', summary = None, url = Some ''u2'', published = None, source = ''rss''\<rparr>] []
   = ([CLASSIFY_PROMPT (Some ''first'') None, CLASSIFY_PROMPT (Some ''second'') None],
      Inr [\<lparr>title = ''second'', summary = None, url = Some ''u2'', published = None, source = ''rss''\<rparr>,
           \<lparr>title = ''first'', summary = None, url = Some ''u1'', published = None, source = ''rss''\<rparr>])
   \<and> map (\<lambda>a. get a ''title'')
       (case snd (classify_parallel (\<lambda>i. 1 - i) (classify_article_tech (\<lambda>p. Inr ''YES''))
              [map_of [(''title'', Some ''first''), (''url'', Some ''u1'')],
               map_of [(''title'', Some ''second''), (''url'', Some ''u2'')]] [])
        of Inl e \<Rightarrow> [] | Inr relevant \<Rightarrow> relevant)
     = [Some ''second'', Some ''first'']"
  by (simp add: classify_parallel_def classify_article_sports_def classify_article_tech_def
        io_defs as_completed_def yes_positive get_def get_default_def)

text \<open>
  Claim C4 at failing inputs. In the finance agent an array that does not parse raises
  JSONDecodeError, and a failing call raises; in the sports agent a failing call raises.
  No fallback query is returned in these cases.
\<close>

theorem query_generation_raises:
  "generate_queries_finance (\<lambda>p. Inr ''Sure: [oops]'') (\<lambda>s. Inl JSONDecodeError) []
     = ([QUERY_PROMPT], Inl JSONDecodeError)
   \<and> generate_queries_finance (\<lambda>p. Inl LLMError) (\<lambda>s. Inl JSONDecodeError) []
     = ([QUERY_PROMPT], Inl LLMError)
   \<and> generate_queries_sports (\<lambda>p. Inl LLMError) (\<lambda>s. Inl JSONDecodeError) []
     = ([QUERY_PROMPT], Inl LLMError)"
  by (simp add: generate_queries_finance_def generate_queries_sports_def io_defs)

text \<open>
  Claim C5 at a failing input. When the call to the model fails, \<open>classify_article\<close> of
  the sports agent raises; \<open>classify_article\<close> of the tech agent returns \<open>False\<close>.
\<close>

theorem classify_sports_raises:
  "classify_article_sports (\<lambda>p. Inl LLMError)
     \<lparr>title = ''first'', summary = None, url = Some ''u1'', published = None, source = ''rss''\<rparr> []
     = ([CLASSIFY_PROMPT (Some ''first'') None], Inl LLMError)
   \<and> classify_article_tech (\<lambda>p. Inl LLMError)
       (map_of [(''title'', Some ''first''), (''url'', Some ''u1'')]) []
     = ([CLASSIFY_PROMPT (Some ''first'') (Some [])], Inr False)"
  by (simp add: classify_article_sports_def classify_article_tech_def io_defs get_default_def)

text \<open>
  Claim C6 at a failing input. Of two records, one carries the date
  \<open>2024-01-02T10:00:00Z\<close>, which the parser turns into an aware \<open>datetime\<close>, and the other
  carries no date and gets the naive \<open>datetime.min\<close>: the sort raises TypeError.
\<close>

theorem ranking_raises_on_mixed_dates:
  "sort_by_recency
     (\<lambda>s. if s = ''2024-01-02T10:00:00Z'' then Inr (Aware 63839786400000000) else Inl OtherError)
     [\<lparr>title = ''dated'', summary = None, url = Some ''u1'',
       published = Some ''2024-01-02T10:00:00Z'', source = ''newsapi''\<rparr>,
      \<lparr>title = ''undated'', summary = None, url = Some ''u2'',
       published = None, source = ''rss''\<rparr>]
   = Inl TypeError"
  by (simp add: sort_by_recency_def parse_date_safe_def datetime_min_def)

section \<open>What the agents do keep of the specified behaviour\<close>

subsection \<open>Classification\<close>

lemma classify_parallel_positives:
  assumes "classify_parallel tm task as t = (t', Inr out)"
  shows "mset out = mset (map snd (filter (\<lambda>f. fst f = Inr True) (snd (submit_all task as t))))"
proof -
  obtain t1 futures where s: "submit_all task as t = (t1, futures)" by force
  then have c: "collect_relevant [] (as_completed tm futures) = Inr out"
    using assms by (simp add: classify_parallel_def)
  have "out = map snd (filter (\<lambda>f. fst f = Inr True) (as_completed tm futures))"
    using collect_relevant_Inr[OF c] by simp
  then have "mset out = image_mset snd (filter_mset (\<lambda>f. fst f = Inr True) (mset (as_completed tm futures)))"
    by simp
  then show ?thesis using s by (simp add: as_completed_mset)
qed

lemma as_completed_in_order:
  assumes "sorted (map tm [0..<length fs])"
  shows "as_completed tm fs = fs"
proof -
  let ?z = "zip (map tm [0..<length fs]) fs"
  have "map fst ?z = map tm [0..<length fs]" by (simp add: map_fst_zip)
  then have "sorted (map fst ?z)" using assms by simp
  then have "sort_key fst ?z = ?z" by (rule sort_key_id_if_sorted)
  then show ?thesis by (simp add: as_completed_def map_snd_zip)
qed

lemma classify_parallel_rank_order:
  assumes "sorted (map tm [0..<length as])" "classify_parallel tm task as t = (t', Inr out)"
  shows "out = map snd (filter (\<lambda>f. fst f = Inr True) (snd (submit_all task as t)))"
proof -
  obtain t1 futures where s: "submit_all task as t = (t1, futures)" by force
  have len: "length futures = length as"
    using submit_all_articles[of task as t] s by (metis length_map snd_conv)
  have c: "collect_relevant [] (as_completed tm futures) = Inr out"
    using assms(2) s by (simp add: classify_parallel_def)
  have "as_completed tm futures = futures" using assms(1) len by (simp add: as_completed_in_order)
  then show ?thesis using collect_relevant_Inr[OF c] s by simp
qed

lemma classify_article_sports_verdict:
  "snd (classify_article_sports lm a t) =
     (case lm (CLASSIFY_PROMPT (Some (title a)) (summary a)) of
        Inl e \<Rightarrow> Inl e
      | Inr content \<Rightarrow> Inr (startswith (upper (strip content)) ''YES''))"
  by (simp add: classify_article_sports_def io_defs split: sum.splits)

lemma classify_article_tech_verdict:
  "snd (classify_article_tech lm a t) =
     Inr (case lm (CLASSIFY_PROMPT (get_default a ''title'' []) (get_default a ''summary'' [])) of
            Inl e \<Rightarrow> False
          | Inr content \<Rightarrow> startswith (upper (strip content)) ''YES'')"
  by (simp add: classify_article_tech_def io_defs split: sum.splits)

lemma verdict_yes_lowercase: "startswith (upper (strip ''  yes, it is '')) ''YES''"
  by code_simp

lemma verdict_no: "\<not> startswith (upper (strip ''No'')) ''YES''"
  by code_simp

lemma verdict_empty: "\<not> startswith (upper (strip [])) ''YES''"
  by code_simp

lemma verdict_yes_inside: "\<not> startswith (upper (strip ''The answer is YES'')) ''YES''"
  by code_simp

subsection \<open>Query generation\<close>

lemma generate_queries_tech_never_raises:
  "\<exists>queries. snd (generate_queries_tech lm loads t) = Inr queries"
  by (auto simp: generate_queries_tech_def io_defs split: sum.splits option.splits)

lemma generate_queries_tech_fallback:
  assumes "lm QUERY_PROMPT = Inl e
         \<or> (\<exists>content. lm QUERY_PROMPT = Inr content \<and>
               (search_array content = None
                \<or> (\<exists>m e'. search_array content = Some m \<and> loads m = Inl e')))"
  shows "snd (generate_queries_tech lm loads t) = Inr fallback_tech"
  using assms
  by (auto simp: generate_queries_tech_def io_defs split: sum.splits option.splits)

lemma generate_queries_sports_fallback:
  assumes "lm QUERY_PROMPT = Inr content"
      and "search_array content = None \<or> (\<exists>m e. search_array content = Some m \<and> loads m = Inl e)"
  shows "snd (generate_queries_sports lm loads t) = Inr fallback_sports"
  using assms
  by (auto simp: generate_queries_sports_def io_defs split: sum.splits option.splits)

lemma generate_queries_finance_fallback:
  assumes "lm QUERY_PROMPT = Inr content" "search_array content = None"
  shows "snd (generate_queries_finance lm loads t) = Inr fallback_finance"
  using assms by (simp add: generate_queries_finance_def io_defs)

lemma search_array_examples:
  "search_array ''Here are the queries you asked for'' = None"
  "search_array ''Sure: [\"a b\", \"c d\"] done'' = Some ''[\"a b\", \"c d\"]''"
  "search_array ''] before ['' = None"
  by (simp_all add: upto_last_def)

subsection \<open>Feeds\<close>

lemma normalize_into_returns:
  "\<forall>a \<in> set rs. get_default a ''title'' [] \<noteq> None \<Longrightarrow> snd (normalize_into src acc rs) = None"
proof (induction rs arbitrary: acc)
  case Nil
  show ?case by simp
next
  case (Cons a rs)
  then obtain n where "normalize_article a src = Inr n"
    by (auto simp: normalize_article_def split: option.splits)
  then show ?case using Cons by simp
qed

lemma entry_dict_title: "get_default (entry_dict e) ''title'' [] = get e ''title''"
  by (simp add: entry_dict_def get_default_def)

lemma rss_loop_returns:
  "\<forall>u \<in> set feeds. \<forall>e \<in> set (take MAX_RSS (feed u)). get e ''title'' \<noteq> None \<Longrightarrow>
   \<exists>out. rss_loop feed acc feeds = Inr out"
proof (induction feeds arbitrary: acc)
  case Nil
  show ?case by simp
next
  case (Cons u feeds)
  let ?rs = "map entry_dict (take MAX_RSS (feed u))"
  have "\<forall>a \<in> set ?rs. get_default a ''title'' [] \<noteq> None"
    using Cons.prems by (auto simp: entry_dict_title)
  then have "snd (normalize_into ''rss'' acc ?rs) = None" by (rule normalize_into_returns)
  then obtain acc' where "normalize_into ''rss'' acc ?rs = (acc', None)"
    by (metis prod.collapse)
  then show ?case using Cons.IH[of acc'] Cons.prems by simp
qed

lemma fetch_rss_feeds_returns:
  "\<forall>u \<in> set feeds. \<forall>e \<in> set (take MAX_RSS (feed u)). get e ''title'' \<noteq> None \<Longrightarrow>
   \<exists>out. fetch_rss_feeds feed feeds = Inr out"
  unfolding fetch_rss_feeds_def by (rule rss_loop_returns)

subsection \<open>Ranking\<close>

lemma datetime_lt_ge_trans:
  "datetime_lt a b = Inr False \<Longrightarrow> datetime_lt b c = Inr False \<Longrightarrow> datetime_lt a c = Inr False"
  by (cases a; cases b; cases c) auto

lemma datetime_lt_flip: "datetime_lt a b = Inr True \<Longrightarrow> datetime_lt b a = Inr False"
  by (cases a; cases b) auto

lemma datetime_lt_irrefl: "datetime_lt a a = Inr False"
  by (cases a) auto

lemma datetime_lt_sym_error: "datetime_lt a b = Inl e \<Longrightarrow> datetime_lt b a = Inl TypeError \<and> e = TypeError"
  by (cases a; cases b) auto

lemma insert_desc_sorted:
  assumes "insert_desc x ys = Inr zs"
      and "sorted_wrt (\<lambda>p q. datetime_lt (fst p) (fst q) = Inr False) ys"
  shows "sorted_wrt (\<lambda>p q. datetime_lt (fst p) (fst q) = Inr False) zs"
  using assms
proof (induction ys arbitrary: zs)
  case Nil
  then show ?case by auto
next
  case (Cons y ys)
  show ?case
  proof (cases "datetime_lt (fst x) (fst y)")
    case (Inl e)
    then show ?thesis using Cons.prems by simp
  next
    case (Inr b)
    show ?thesis
    proof (cases b)
      case True
      then obtain zs' where z: "insert_desc x ys = Inr zs'" "zs = y # zs'"
        using Cons.prems(1) Inr by (auto split: sum.splits)
      have "sorted_wrt (\<lambda>p q. datetime_lt (fst p) (fst q) = Inr False) zs'"
        using Cons.IH[OF z(1)] Cons.prems(2) by simp
      moreover have "set zs' = insert x (set ys)"
        using insert_desc_mset[OF z(1)] by (metis set_mset_mset set_mset_add_mset_insert)
      moreover have "datetime_lt (fst y) (fst x) = Inr False"
        using Inr True by (simp add: datetime_lt_flip)
      ultimately show ?thesis using z(2) Cons.prems(2) by auto
    next
      case False
      then have z: "zs = x # y # ys" using Cons.prems(1) Inr by simp
      have "\<forall>w \<in> set ys. datetime_lt (fst x) (fst w) = Inr False"
        using Cons.prems(2) Inr False datetime_lt_ge_trans by fastforce
      then show ?thesis using z Cons.prems(2) Inr False by simp
    qed
  qed
qed

lemma sort_desc_sorted:
  "sort_desc xs = Inr ys \<Longrightarrow> sorted_wrt (\<lambda>p q. datetime_lt (fst p) (fst q) = Inr False) ys"
proof (induction xs arbitrary: ys)
  case Nil
  then show ?case by simp
next
  case (Cons x xs)
  then obtain ys' where "sort_desc xs = Inr ys'" "insert_desc x ys' = Inr ys"
    by (auto split: sum.splits)
  then show ?case using Cons.IH insert_desc_sorted by blast
qed

lemma insert_desc_stable:
  "insert_desc x ys = Inr zs \<Longrightarrow>
   filter (\<lambda>p. fst p = k) zs =
     (if fst x = k then x # filter (\<lambda>p. fst p = k) ys else filter (\<lambda>p. fst p = k) ys)"
proof (induction ys arbitrary: zs)
  case Nil
  then show ?case by auto
next
  case (Cons y ys)
  show ?case
  proof (cases "datetime_lt (fst x) (fst y)")
    case (Inl e)
    then show ?thesis using Cons.prems by simp
  next
    case (Inr b)
    show ?thesis
    proof (cases b)
      case True
      then obtain zs' where z: "insert_desc x ys = Inr zs'" "zs = y # zs'"
        using Cons.prems(1) Inr by (auto split: sum.splits)
      have "fst x \<noteq> fst y" using Inr True datetime_lt_irrefl[of "fst y"] by auto
      then show ?thesis using Cons.IH[OF z(1)] z(2) by auto
    next
      case False
      then show ?thesis using Cons.prems(1) Inr by auto
    qed
  qed
qed

lemma sort_desc_stable:
  "sort_desc xs = Inr ys \<Longrightarrow> filter (\<lambda>p. fst p = k) ys = filter (\<lambda>p. fst p = k) xs"
proof (induction xs arbitrary: ys)
  case Nil
  then show ?case by simp
next
  case (Cons x xs)
  then obtain ys' where s: "sort_desc xs = Inr ys'" "insert_desc x ys' = Inr ys"
    by (auto split: sum.splits)
  show ?case using insert_desc_stable[OF s(2), of k] Cons.IH[OF s(1)] by simp
qed

lemma insert_desc_returns:
  "\<forall>q \<in> set ys. datetime_lt (fst x) (fst q) \<noteq> Inl TypeError \<Longrightarrow> \<exists>zs. insert_desc x ys = Inr zs"
proof (induction ys)
  case Nil
  show ?case by simp
next
  case (Cons y ys)
  then obtain zs where "insert_desc x ys = Inr zs" by auto
  moreover obtain b where "datetime_lt (fst x) (fst y) = Inr b"
    using Cons.prems datetime_lt_sym_error[of "fst x" "fst y"]
    by (cases "datetime_lt (fst x) (fst y)") auto
  ultimately show ?case by (cases b) auto
qed

lemma sort_desc_returns:
  "\<forall>p \<in> set xs. \<forall>q \<in> set xs. datetime_lt (fst p) (fst q) \<noteq> Inl TypeError \<Longrightarrow>
   \<exists>ys. sort_desc xs = Inr ys"
proof (induction xs)
  case Nil
  show ?case by simp
next
  case (Cons x xs)
  then obtain ys where ys: "sort_desc xs = Inr ys" by auto
  have "set ys = set xs" using sort_desc_mset[OF ys] by (metis set_mset_mset)
  then have "\<forall>q \<in> set ys. datetime_lt (fst x) (fst q) \<noteq> Inl TypeError" using Cons.prems by simp
  then show ?case using ys insert_desc_returns[of ys x] by auto
qed

lemma sort_desc_comparable:
  assumes "sort_desc xs = Inr ys" "p \<in> set xs" "q \<in> set xs"
  shows "datetime_lt (fst p) (fst q) \<noteq> Inl TypeError"
proof -
  let ?R = "\<lambda>p q. datetime_lt (fst p) (fst q) = Inr False"
  have s: "sorted_wrt ?R ys" using assms(1) by (rule sort_desc_sorted)
  have "set ys = set xs" using sort_desc_mset[OF assms(1)] by (metis set_mset_mset)
  then obtain i j where ij: "i < length ys" "j < length ys" "ys ! i = p" "ys ! j = q"
    using assms(2,3) by (metis in_set_conv_nth)
  consider "i < j" | "j < i" | "i = j" by linarith
  then show ?thesis
  proof cases
    case 1
    then have "?R p q" using s ij by (auto simp: sorted_wrt_iff_nth_less)
    then show ?thesis by simp
  next
    case 2
    then have "?R q p" using s ij by (auto simp: sorted_wrt_iff_nth_less)
    then show ?thesis using datetime_lt_sym_error[of "fst p" "fst q"]
      by (cases "datetime_lt (fst p) (fst q)") auto
  next
    case 3
    then show ?thesis using ij datetime_lt_irrefl[of "fst p"] by auto
  qed
qed

lemma sort_by_recency_returns_iff:
  "(\<exists>out. sort_by_recency dp as = Inr out) \<longleftrightarrow>
   (\<forall>a \<in> set as. \<forall>b \<in> set as.
      datetime_lt (parse_date_safe dp (published a)) (parse_date_safe dp (published b)) \<noteq> Inl TypeError)"
proof
  let ?keyed = "map (\<lambda>x. (parse_date_safe dp (published x), x)) as"
  assume "\<exists>out. sort_by_recency dp as = Inr out"
  then obtain ks where ks: "sort_desc ?keyed = Inr ks"
    by (auto simp: sort_by_recency_def split: sum.splits)
  show "\<forall>a \<in> set as. \<forall>b \<in> set as.
      datetime_lt (parse_date_safe dp (published a)) (parse_date_safe dp (published b)) \<noteq> Inl TypeError"
  proof (intro ballI)
    fix a b assume "a \<in> set as" "b \<in> set as"
    then have "(parse_date_safe dp (published a), a) \<in> set ?keyed"
              "(parse_date_safe dp (published b), b) \<in> set ?keyed" by auto
    from sort_desc_comparable[OF ks this]
    show "datetime_lt (parse_date_safe dp (published a)) (parse_date_safe dp (published b)) \<noteq> Inl TypeError"
      by simp
  qed
next
  let ?keyed = "map (\<lambda>x. (parse_date_safe dp (published x), x)) as"
  assume "\<forall>a \<in> set as. \<forall>b \<in> set as.
      datetime_lt (parse_date_safe dp (published a)) (parse_date_safe dp (published b)) \<noteq> Inl TypeError"
  then have "\<forall>p \<in> set ?keyed. \<forall>q \<in> set ?keyed. datetime_lt (fst p) (fst q) \<noteq> Inl TypeError"
    by auto
  then obtain ks where "sort_desc ?keyed = Inr ks" using sort_desc_returns by blast
  then show "\<exists>out. sort_by_recency dp as = Inr out" by (simp add: sort_by_recency_def)
qed

lemma sort_by_recency_correct:
  assumes "sort_by_recency dp as = Inr out"
  shows "mset out = mset as"
    and "sorted_wrt (\<lambda>a b. datetime_lt (parse_date_safe dp (published a))
                                       (parse_date_safe dp (published b)) = Inr False) out"
    and "filter (\<lambda>a. parse_date_safe dp (published a) = k) out =
         filter (\<lambda>a. parse_date_safe dp (published a) = k) as"
proof -
  let ?K = "\<lambda>x. parse_date_safe dp (published x)"
  let ?keyed = "map (\<lambda>x. (?K x, x)) as"
  from assms obtain ks where ks: "sort_desc ?keyed = Inr ks" "out = map snd ks"
    by (auto simp: sort_by_recency_def split: sum.splits)
  show "mset out = mset as" using assms by (rule sort_by_recency_mset)
  have "set ks = set ?keyed" using sort_desc_mset[OF ks(1)] by (metis set_mset_mset)
  then have key: "\<forall>p \<in> set ks. fst p = ?K (snd p)" by auto
  have "sorted_wrt (\<lambda>p q. datetime_lt (fst p) (fst q) = Inr False) ks"
    using ks(1) by (rule sort_desc_sorted)
  then have "sorted_wrt (\<lambda>p q. datetime_lt (?K (snd p)) (?K (snd q)) = Inr False) ks"
  proof (rule sorted_wrt_mono_rel[rotated])
    fix p q assume "p \<in> set ks" "q \<in> set ks" "datetime_lt (fst p) (fst q) = Inr False"
    then show "datetime_lt (?K (snd p)) (?K (snd q)) = Inr False" using key by metis
  qed
  then show "sorted_wrt (\<lambda>a b. datetime_lt (?K a) (?K b) = Inr False) out"
    using ks(2) by (simp add: sorted_wrt_map)
  have 1: "filter (\<lambda>a. ?K a = k) out = map snd (filter (\<lambda>p. ?K (snd p) = k) ks)"
    using ks(2) by (simp add: filter_map comp_def)
  have 2: "filter (\<lambda>p. ?K (snd p) = k) ks = filter (\<lambda>p. fst p = k) ks"
    by (rule filter_cong) (use key in auto)
  have 3: "filter (\<lambda>p. fst p = k) ks = filter (\<lambda>p. fst p = k) ?keyed"
    using ks(1) by (rule sort_desc_stable)
  have 4: "map snd (filter (\<lambda>p. fst p = k) ?keyed) = filter (\<lambda>a. ?K a = k) as"
    by (simp add: filter_map comp_def)
  show "filter (\<lambda>a. ?K a = k) out = filter (\<lambda>a. ?K a = k) as"
    using 1 2 3 4 by simp
qed

lemma undated_sorts_last:
  assumes "sort_by_recency dp as = Inr (xs @ a # ys)"
      and "parse_date_safe dp (published a) = datetime_min"
      and "b \<in> set ys"
  shows "parse_date_safe dp (published b) = datetime_min"
proof -
  have "sorted_wrt (\<lambda>a b. datetime_lt (parse_date_safe dp (published a))
                                   (parse_date_safe dp (published b)) = Inr False) (xs @ a # ys)"
    using assms(1) by (rule sort_by_recency_correct(2))
  then have "datetime_lt (parse_date_safe dp (published a)) (parse_date_safe dp (published b)) = Inr False"
    using assms(3) by (simp add: sorted_wrt_append)
  then show ?thesis using assms(2)
    by (cases "parse_date_safe dp (published b)") (auto simp: datetime_min_def)
qed

end
